theory Spec2Isabelle
  imports Main
begin

section \<open>Day 16, Reindeer Maze: the data model\<close>

text \<open>
  The development follows \<^verbatim>\<open>src/day16/main.py\<close>. Python integers are unbounded, so
  costs, coordinates and the tie-break counter are \<^typ>\<open>int\<close>. A Python \<^verbatim>\<open>str\<close> is a
  sequence of Unicode code points; a character is modelled by its code point.
\<close>

datatype cell = START | END | EMPTY | WALL

type_synonym pychar = nat
type_synonym pystr = "pychar list"

text \<open>The \<^verbatim>\<open>value\<close> of each member of the enumeration \<^verbatim>\<open>Cell\<close>: a one-character string.\<close>

fun cell_value :: "cell \<Rightarrow> pychar" where
  "cell_value START = of_char CHR ''S''"
| "cell_value END = of_char CHR ''E''"
| "cell_value EMPTY = of_char CHR ''.''"
| "cell_value WALL = of_char CHR ''#''"

datatype position = Position (pos_x: int) (pos_y: int)

datatype direction = NORTH | EAST | SOUTH | WEST

fun direction_value :: "direction \<Rightarrow> int \<times> int" where
  "direction_value NORTH = (0, -1)"
| "direction_value EAST = (1, 0)"
| "direction_value SOUTH = (0, 1)"
| "direction_value WEST = (-1, 0)"

definition advance :: "direction \<Rightarrow> position \<Rightarrow> position" where
  "advance d p = (case direction_value d of (dx, dy) \<Rightarrow> Position (pos_x p + dx) (pos_y p + dy))"

fun turn_clockwise :: "direction \<Rightarrow> direction" where
  "turn_clockwise NORTH = EAST"
| "turn_clockwise EAST = SOUTH"
| "turn_clockwise SOUTH = WEST"
| "turn_clockwise WEST = NORTH"

fun turn_counter_clockwise :: "direction \<Rightarrow> direction" where
  "turn_counter_clockwise NORTH = WEST"
| "turn_counter_clockwise EAST = NORTH"
| "turn_counter_clockwise SOUTH = EAST"
| "turn_counter_clockwise WEST = SOUTH"

text \<open>
  \<^verbatim>\<open>Maze = list[list[Cell]]\<close>. The annotation is not enforced: \<^verbatim>\<open>count_best_path_tiles\<close>
  stores the string \<^verbatim>\<open>"O"\<close> into rows, so a slot of a row holds either a \<^verbatim>\<open>Cell\<close> or
  a string. Rows are modelled as values; two rows of one maze are never the same list
  object (as in every maze built by \<^verbatim>\<open>read_maze\<close>).
\<close>

datatype tile = Kind cell | Text pystr

type_synonym maze = "tile list list"

definition DEFAULT_STARTING_DIRECTION :: direction where
  "DEFAULT_STARTING_DIRECTION = EAST"

definition DEFAULT_MOVE_COST :: int where
  "DEFAULT_MOVE_COST = 1"

definition DEFAULT_TURN_COST :: int where
  "DEFAULT_TURN_COST = 1000"

text \<open>
  The exceptions the module can raise: the two \<^verbatim>\<open>ValueError\<close>s it raises itself (with
  the offending character, respectively the no-path message), and the \<^verbatim>\<open>IndexError\<close>
  and \<^verbatim>\<open>KeyError\<close> of list and dictionary subscripts.
\<close>

datatype error =
    UnknownCellCharacter pychar
  | NoPathFound
  | IndexError
  | KeyError

section \<open>Reading the maze\<close>

definition interpret_char_as_cell :: "pychar \<Rightarrow> error + cell" where
  "interpret_char_as_cell c =
     (if c = cell_value START then Inr START
      else if c = cell_value END then Inr END
      else if c = cell_value EMPTY then Inr EMPTY
      else if c = cell_value WALL then Inr WALL
      else Inl (UnknownCellCharacter c))"

text \<open>
  \<^verbatim>\<open>str.strip()\<close> without argument removes leading and trailing whitespace, that is the
  code points for which \<^verbatim>\<open>str.isspace\<close> holds.
\<close>

definition py_isspace :: "pychar \<Rightarrow> bool" where
  "py_isspace c \<longleftrightarrow>
     (9 \<le> c \<and> c \<le> 13) \<or> (28 \<le> c \<and> c \<le> 32) \<or> c = 133 \<or> c = 160 \<or> c = 5760
     \<or> (8192 \<le> c \<and> c \<le> 8202) \<or> c = 8232 \<or> c = 8233 \<or> c = 8239 \<or> c = 8287
     \<or> c = 12288"

definition strip :: "pystr \<Rightarrow> pystr" where
  "strip s = rev (dropWhile py_isspace (rev (dropWhile py_isspace s)))"

text \<open>The list comprehension of \<^verbatim>\<open>read_maze\<close>: the first unknown character raises.\<close>

fun interpret_row :: "pystr \<Rightarrow> error + tile list" where
  "interpret_row [] = Inr []"
| "interpret_row (c # cs) =
     (case interpret_char_as_cell c of
        Inl e \<Rightarrow> Inl e
      | Inr k \<Rightarrow> (case interpret_row cs of Inl e \<Rightarrow> Inl e | Inr row \<Rightarrow> Inr (Kind k # row)))"

text \<open>
  \<^verbatim>\<open>read_maze\<close> on the lines the file iterator yields (each with its line terminator,
  which \<^verbatim>\<open>strip\<close> removes). Opening and decoding the file are outside the model.
\<close>

fun read_maze :: "pystr list \<Rightarrow> error + maze" where
  "read_maze [] = Inr []"
| "read_maze (line # lines) =
     (case interpret_row (strip line) of
        Inl e \<Rightarrow> Inl e
      | Inr row \<Rightarrow> (case read_maze lines of Inl e \<Rightarrow> Inl e | Inr rows \<Rightarrow> Inr (row # rows)))"

section \<open>Positions in the maze\<close>

text \<open>A list subscript with Python's rule for negative indices.\<close>

definition getitem :: "'a list \<Rightarrow> int \<Rightarrow> error + 'a" where
  "getitem xs i =
     (if 0 \<le> i \<and> i < int (length xs) then Inr (xs ! nat i)
      else if i < 0 \<and> - int (length xs) \<le> i then Inr (xs ! nat (i + int (length xs)))
      else Inl IndexError)"

text \<open>\<^verbatim>\<open>maze[position.y][position.x]\<close>\<close>

definition cell_at :: "maze \<Rightarrow> position \<Rightarrow> error + tile" where
  "cell_at maze p =
     (case getitem maze (pos_y p) of Inl e \<Rightarrow> Inl e | Inr row \<Rightarrow> getitem row (pos_x p))"

definition find_start_position :: "maze \<Rightarrow> position" where
  "find_start_position maze = Position 1 (int (length maze) - 2)"

definition find_end_position :: "maze \<Rightarrow> error + position" where
  "find_end_position maze =
     (case getitem maze 0 of Inl e \<Rightarrow> Inl e | Inr row \<Rightarrow> Inr (Position (int (length row) - 2) 1))"

text \<open>
  \<^verbatim>\<open>0 <= position.x < len(maze[0]) and 0 <= position.y < len(maze)\<close>: the chained
  comparison reads \<^verbatim>\<open>maze[0]\<close> only when \<^verbatim>\<open>0 <= position.x\<close> holds.
\<close>

definition is_within_bounds :: "maze \<Rightarrow> position \<Rightarrow> error + bool" where
  "is_within_bounds maze p =
     (if \<not> 0 \<le> pos_x p then Inr False
      else case getitem maze 0 of
             Inl e \<Rightarrow> Inl e
           | Inr row \<Rightarrow> Inr (pos_x p < int (length row) \<and> 0 \<le> pos_y p \<and> pos_y p < int (length maze)))"

section \<open>The frontier\<close>

text \<open>
  Queue entries are tuples whose first two components are the cost and the value of the
  counter created by \<^verbatim>\<open>create_counter(0)\<close>. The counter values are pairwise distinct, so
  the tuple comparison of \<^verbatim>\<open>heapq\<close> is decided by (cost, count) and \<^verbatim>\<open>heappop\<close> returns
  the entry with the least such pair. The array layout of the heap is abstracted: the
  queue is the list of its entries in ascending (cost, count) order.
\<close>

definition key_less :: "int \<times> int \<Rightarrow> int \<times> int \<Rightarrow> bool" where
  "key_less a b \<longleftrightarrow> fst a < fst b \<or> (fst a = fst b \<and> snd a < snd b)"

fun heappush :: "('a \<Rightarrow> int \<times> int) \<Rightarrow> 'a list \<Rightarrow> 'a \<Rightarrow> 'a list" where
  "heappush key [] e = [e]"
| "heappush key (f # q) e =
     (if key_less (key e) (key f) then e # f # q else f # heappush key q e)"

text \<open>
  A queue in ascending order of its keys, and a queue whose counts are pairwise distinct
  and below the value of the counter: both searches keep their queue so, and the head of
  such a queue is the one entry \<^verbatim>\<open>heappop\<close> can return.
\<close>

definition in_order :: "('a \<Rightarrow> int \<times> int) \<Rightarrow> 'a list \<Rightarrow> bool" where
  "in_order key q \<longleftrightarrow> sorted_wrt (\<lambda>a b. \<not> key_less (key b) (key a)) q"

definition counts_fresh :: "('a \<Rightarrow> int \<times> int) \<Rightarrow> 'a list \<Rightarrow> int \<Rightarrow> bool" where
  "counts_fresh key q counter \<longleftrightarrow>
     distinct (map (\<lambda>e. snd (key e)) q) \<and> (\<forall>e\<in>set q. snd (key e) < counter)"

section \<open>The minimum cost search\<close>

type_synonym step = "int \<times> int \<times> position \<times> direction"

definition step_key :: "step \<Rightarrow> int \<times> int" where
  "step_key e = (case e of (cost, count, _, _) \<Rightarrow> (cost, count))"

text \<open>
  The local state of \<^verbatim>\<open>min_cost_to_end\<close>: the queue, the set \<^verbatim>\<open>visited\<close> and the value
  the next call of \<^verbatim>\<open>count()\<close> returns.
\<close>

record mc_state =
  mc_queue :: "step list"
  mc_visited :: "position set"
  mc_counter :: int

text \<open>
  One iteration of \<^verbatim>\<open>while queue:\<close>, together with the \<^verbatim>\<open>raise\<close> after the loop:
  \<open>Inl\<close> is the end of the call (a raised error or the returned cost), \<open>Inr\<close> the state
  for the next iteration.
\<close>

definition min_cost_iteration ::
  "maze \<Rightarrow> position \<Rightarrow> int \<Rightarrow> int \<Rightarrow> mc_state \<Rightarrow> (error + int) + mc_state" where
  "min_cost_iteration maze end_position move_cost turn_cost s =
     (case mc_queue s of
        [] \<Rightarrow> Inl (Inl NoPathFound)
      | (cost, _, position, direction) # rest \<Rightarrow>
          if position = end_position then Inl (Inr cost)
          else if position \<in> mc_visited s then Inr (s\<lparr>mc_queue := rest\<rparr>)
          else
            (case cell_at maze position of
               Inl e \<Rightarrow> Inl (Inl e)
             | Inr c \<Rightarrow>
                 if c = Kind WALL
                 then Inr (s\<lparr>mc_queue := rest, mc_visited := insert position (mc_visited s)\<rparr>)
                 else
                   let left_direction = turn_counter_clockwise direction;
                       right_direction = turn_clockwise direction;
                       left_position = advance left_direction position;
                       forward_position = advance direction position;
                       right_position = advance right_direction position;
                       move_forward_cost = cost + move_cost;
                       move_side_cost = turn_cost + move_forward_cost;
                       left_step = (move_side_cost, mc_counter s, left_position, left_direction);
                       forward_step =
                         (move_forward_cost, mc_counter s + 1, forward_position, direction);
                       right_step =
                         (move_side_cost, mc_counter s + 2, right_position, right_direction)
                   in Inr \<lparr>mc_queue =
                             heappush step_key
                               (heappush step_key (heappush step_key rest left_step) forward_step)
                               right_step,
                           mc_visited = insert position (mc_visited s),
                           mc_counter = mc_counter s + 3\<rparr>))"

text \<open>
  The positions a subscript accepts. An iteration that continues after adding a position
  to \<^verbatim>\<open>visited\<close> has read the maze there, so the unvisited positions of this finite set
  decrease; otherwise the queue gets shorter.
\<close>

definition subscriptable :: "maze \<Rightarrow> position set" where
  "subscriptable maze =
     (\<Union>j \<in> {0 ..< length maze}.
        (\<lambda>(i, k). Position i k) `
          ({- int (length (maze ! j)) ..< int (length (maze ! j))}
             \<times> {int j, int j - int (length maze)}))"

definition mc_measure :: "maze \<Rightarrow> mc_state \<Rightarrow> nat \<times> nat" where
  "mc_measure maze s = (card (subscriptable maze - mc_visited s), length (mc_queue s))"

text \<open>The loop of \<^verbatim>\<open>min_cost_to_end\<close>; its termination is proved below.\<close>

function min_cost_loop ::
  "maze \<Rightarrow> position \<Rightarrow> int \<Rightarrow> int \<Rightarrow> mc_state \<Rightarrow> error + int" where
  "min_cost_loop maze end_position move_cost turn_cost s =
     (case min_cost_iteration maze end_position move_cost turn_cost s of
        Inl r \<Rightarrow> r
      | Inr s' \<Rightarrow> min_cost_loop maze end_position move_cost turn_cost s')"
  by pat_completeness auto

text \<open>
  \<^verbatim>\<open>min_cost_to_end\<close>. The first call of \<^verbatim>\<open>count()\<close> returns 0 and tags the start entry.
  What the function prints is not modelled.
\<close>

definition mc_initial :: "position \<Rightarrow> direction \<Rightarrow> mc_state" where
  "mc_initial start_position start_direction =
     \<lparr>mc_queue = [(0, 0, start_position, start_direction)], mc_visited = {}, mc_counter = 1\<rparr>"

definition min_cost_to_end :: "maze \<Rightarrow> direction \<Rightarrow> int \<Rightarrow> int \<Rightarrow> error + int" where
  "min_cost_to_end maze start_direction move_cost turn_cost =
     (let start_position = find_start_position maze in
      case find_end_position maze of
        Inl e \<Rightarrow> Inl e
      | Inr end_position \<Rightarrow>
          min_cost_loop maze end_position move_cost turn_cost
            (mc_initial start_position start_direction))"

section \<open>Counting the tiles of the best paths\<close>

text \<open>
  A queue entry of \<^verbatim>\<open>count_best_path_tiles\<close> is a tuple
  \<^verbatim>\<open>(cost, count, position, direction, previous)\<close> whose last component is the entry it
  was generated from, or \<^verbatim>\<open>None\<close>.
\<close>

datatype node =
  Node (node_cost: int) (node_count: int) (node_position: position)
       (node_direction: direction) (node_previous: "node option")

definition node_key :: "node \<Rightarrow> int \<times> int" where
  "node_key n = (node_cost n, node_count n)"

record bp_state =
  bp_queue :: "node list"
  bp_min_cost_to_position :: "position \<rightharpoonup> int"
  bp_best_paths :: "node list"
  bp_counter :: int

definition SENTINEL :: int where
  "SENTINEL = 999999999"

text \<open>
  The body of \<^verbatim>\<open>while queue:\<close> for the entry \<open>n\<close> just popped; \<open>s\<close> is the state after
  the pop.
\<close>

definition count_best_iteration ::
  "maze \<Rightarrow> position \<Rightarrow> int \<Rightarrow> int \<Rightarrow> node \<Rightarrow> bp_state \<Rightarrow> error + bp_state" where
  "count_best_iteration maze end_position move_cost turn_cost n s =
     (let cost = node_cost n; position = node_position n; direction = node_direction n in
      case cell_at maze position of
        Inl e \<Rightarrow> Inl e
      | Inr c \<Rightarrow>
          if c = Kind WALL then Inr s
          else
            (case bp_min_cost_to_position s end_position of
               None \<Rightarrow> Inl KeyError
             | Some end_cost \<Rightarrow>
                 if cost > end_cost then Inr s
                 else if (case bp_min_cost_to_position s position of
                            None \<Rightarrow> False
                          | Some recorded \<Rightarrow> cost > recorded)
                 then Inr s
                 else
                   let min_cost_to_position = (bp_min_cost_to_position s)(position \<mapsto> cost) in
                   if position = end_position
                   then Inr (s\<lparr>bp_min_cost_to_position := min_cost_to_position,
                               bp_best_paths := bp_best_paths s @ [n]\<rparr>)
                   else
                     let left_direction = turn_counter_clockwise direction;
                         right_direction = turn_clockwise direction;
                         left_position = advance left_direction position;
                         forward_position = advance direction position;
                         right_position = advance right_direction position;
                         move_forward_cost = cost + move_cost;
                         move_side_cost = turn_cost + move_forward_cost;
                         left_step =
                           Node move_side_cost (bp_counter s) left_position left_direction
                             (Some n);
                         forward_step =
                           Node move_forward_cost (bp_counter s + 1) forward_position direction
                             (Some n);
                         right_step =
                           Node move_side_cost (bp_counter s + 2) right_position right_direction
                             (Some n)
                     in Inr (s\<lparr>bp_queue :=
                                  heappush node_key
                                    (heappush node_key
                                       (heappush node_key (bp_queue s) left_step)
                                       forward_step)
                                    right_step,
                                bp_min_cost_to_position := min_cost_to_position,
                                bp_counter := bp_counter s + 3\<rparr>)))"

text \<open>
  The loop of \<^verbatim>\<open>count_best_path_tiles\<close>. Nothing bounds the number of its iterations
  for arbitrary costs, so it is a partial function: \<open>None\<close> is a loop that never ends.
\<close>

partial_function (option) count_best_loop ::
  "maze \<Rightarrow> position \<Rightarrow> int \<Rightarrow> int \<Rightarrow> bp_state \<Rightarrow> (error + bp_state) option" where
  "count_best_loop maze end_position move_cost turn_cost s =
     (case bp_queue s of
        [] \<Rightarrow> Some (Inr s)
      | n # rest \<Rightarrow>
          (case count_best_iteration maze end_position move_cost turn_cost n
                  (s\<lparr>bp_queue := rest\<rparr>) of
             Inl e \<Rightarrow> Some (Inl e)
           | Inr s' \<Rightarrow> count_best_loop maze end_position move_cost turn_cost s'))"

text \<open>The inner \<^verbatim>\<open>while node:\<close> loop: the positions on the chain of predecessors.\<close>

fun unwind :: "node \<Rightarrow> position set" where
  "unwind (Node cost count position direction previous) =
     insert position (case previous of None \<Rightarrow> {} | Some n \<Rightarrow> unwind n)"

definition best_path_positions :: "node list \<Rightarrow> position set" where
  "best_path_positions best_paths = (\<Union>n \<in> set best_paths. unwind n)"

text \<open>
  \<^verbatim>\<open>display_maze = maze.copy()\<close> copies the outer list only, so the assignment
  \<^verbatim>\<open>display_maze[y][x] = "O"\<close> writes into the rows of the caller's maze.
  \<open>mark_maze\<close> is the content of those rows after the two \<^verbatim>\<open>enumerate\<close> loops.
\<close>

definition mark_row :: "position set \<Rightarrow> int \<Rightarrow> tile list \<Rightarrow> tile list" where
  "mark_row best y row =
     map (\<lambda>(x, t). if Position (int x) y \<in> best then Text [of_char CHR ''O''] else t)
       (enumerate 0 row)"

definition mark_maze :: "position set \<Rightarrow> maze \<Rightarrow> maze" where
  "mark_maze best maze = map (\<lambda>(y, row). mark_row best (int y) row) (enumerate 0 maze)"

text \<open>
  The state before the first iteration: the start entry, and the sentinel recorded for
  the end position.
\<close>

definition bp_initial :: "position \<Rightarrow> direction \<Rightarrow> position \<Rightarrow> bp_state" where
  "bp_initial start_position start_direction end_position =
     \<lparr>bp_queue = [Node 0 0 start_position start_direction None],
      bp_min_cost_to_position = [end_position \<mapsto> SENTINEL],
      bp_best_paths = [],
      bp_counter = 1\<rparr>"

text \<open>
  \<^verbatim>\<open>count_best_path_tiles\<close> returns the number of collected positions; the second
  component of the result is the caller's maze as the call leaves it.
\<close>

definition count_best_path_tiles ::
  "maze \<Rightarrow> direction \<Rightarrow> int \<Rightarrow> int \<Rightarrow> (error + int \<times> maze) option" where
  "count_best_path_tiles maze start_direction move_cost turn_cost =
     (let start_position = find_start_position maze in
      case find_end_position maze of
        Inl e \<Rightarrow> Some (Inl e)
      | Inr end_position \<Rightarrow>
          (case count_best_loop maze end_position move_cost turn_cost
                  (bp_initial start_position start_direction end_position) of
             None \<Rightarrow> None
           | Some (Inl e) \<Rightarrow> Some (Inl e)
           | Some (Inr s) \<Rightarrow>
               let positions = best_path_positions (bp_best_paths s)
               in Some (Inr (int (card positions), mark_maze positions maze))))"

text \<open>
  \<^verbatim>\<open>print_maze\<close>: the lines it writes. \<^verbatim>\<open>print\<close> shows a \<^verbatim>\<open>Cell\<close> through \<^verbatim>\<open>__str__\<close>,
  that is its value, and a string as it is.
\<close>

definition tile_str :: "tile \<Rightarrow> pystr" where
  "tile_str c = (case c of Kind k \<Rightarrow> [cell_value k] | Text s \<Rightarrow> s)"

definition print_maze :: "maze \<Rightarrow> pystr list" where
  "print_maze maze = map (\<lambda>row. concat (map tile_str row)) maze"

section \<open>The states of the two loops after a number of iterations\<close>

fun min_cost_after ::
  "nat \<Rightarrow> maze \<Rightarrow> position \<Rightarrow> int \<Rightarrow> int \<Rightarrow> mc_state \<Rightarrow> (error + int) + mc_state" where
  "min_cost_after 0 maze end_position move_cost turn_cost s = Inr s"
| "min_cost_after (Suc k) maze end_position move_cost turn_cost s =
     (case min_cost_iteration maze end_position move_cost turn_cost s of
        Inl r \<Rightarrow> Inl r
      | Inr s' \<Rightarrow> min_cost_after k maze end_position move_cost turn_cost s')"

fun count_best_after ::
  "nat \<Rightarrow> maze \<Rightarrow> position \<Rightarrow> int \<Rightarrow> int \<Rightarrow> bp_state \<Rightarrow> error + bp_state" where
  "count_best_after 0 maze end_position move_cost turn_cost s = Inr s"
| "count_best_after (Suc k) maze end_position move_cost turn_cost s =
     (case bp_queue s of
        [] \<Rightarrow> Inr s
      | n # rest \<Rightarrow>
          (case count_best_iteration maze end_position move_cost turn_cost n
                  (s\<lparr>bp_queue := rest\<rparr>) of
             Inl e \<Rightarrow> Inl e
           | Inr s' \<Rightarrow> count_best_after k maze end_position move_cost turn_cost s'))"

section \<open>What the specification speaks of\<close>

text \<open>
  The definitions of this section follow the words of the specification, not the code.
  A cell can be passed when it lies inside the grid and is not a wall.
\<close>

definition passable :: "maze \<Rightarrow> position \<Rightarrow> bool" where
  "passable maze p \<longleftrightarrow>
     0 \<le> pos_y p \<and> pos_y p < int (length maze) \<and>
     0 \<le> pos_x p \<and> pos_x p < int (length (maze ! nat (pos_y p))) \<and>
     maze ! nat (pos_y p) ! nat (pos_x p) \<noteq> Kind WALL"

text \<open>
  A position inside a rectangular grid, and a grid that is enclosed by walls: it has at
  least two rows and two columns, all rows have the length of the first, and every cell
  of the first and last row and of the first and last column is a wall.
\<close>

definition inside :: "maze \<Rightarrow> position \<Rightarrow> bool" where
  "inside maze p \<longleftrightarrow>
     0 \<le> pos_x p \<and> pos_x p < int (length (hd maze)) \<and>
     0 \<le> pos_y p \<and> pos_y p < int (length maze)"

definition enclosed :: "maze \<Rightarrow> bool" where
  "enclosed maze \<longleftrightarrow>
     2 \<le> length maze \<and> 2 \<le> length (hd maze) \<and>
     (\<forall>row\<in>set maze.
        length row = length (hd maze) \<and> hd row = Kind WALL \<and> last row = Kind WALL) \<and>
     (\<forall>c\<in>set (hd maze). c = Kind WALL) \<and>
     (\<forall>c\<in>set (last maze). c = Kind WALL)"

text \<open>
  \<open>route maze start m t state c cells\<close>: some sequence of moves leads from the state
  \<open>start\<close> to \<open>state\<close> through cells that can be passed, costs \<open>c\<close> in total and passes
  the positions \<open>cells\<close> (latest first). A step forward costs the move cost \<open>m\<close>; a step
  after a turn of 90 degrees to the left or to the right costs \<open>m + t\<close>.
\<close>

inductive route ::
  "maze \<Rightarrow> position \<times> direction \<Rightarrow> int \<Rightarrow> int \<Rightarrow> position \<times> direction \<Rightarrow> int
     \<Rightarrow> position list \<Rightarrow> bool"
  for maze :: maze and start :: "position \<times> direction" and m :: int and t :: int where
  route_start: "passable maze (fst start) \<Longrightarrow> route maze start m t start 0 [fst start]"
| route_forward:
    "route maze start m t (p, d) c cells \<Longrightarrow> passable maze (advance d p)
     \<Longrightarrow> route maze start m t (advance d p, d) (c + m) (advance d p # cells)"
| route_left:
    "route maze start m t (p, d) c cells
     \<Longrightarrow> passable maze (advance (turn_counter_clockwise d) p)
     \<Longrightarrow> route maze start m t
           (advance (turn_counter_clockwise d) p, turn_counter_clockwise d) (c + m + t)
           (advance (turn_counter_clockwise d) p # cells)"
| route_right:
    "route maze start m t (p, d) c cells
     \<Longrightarrow> passable maze (advance (turn_clockwise d) p)
     \<Longrightarrow> route maze start m t
           (advance (turn_clockwise d) p, turn_clockwise d) (c + m + t)
           (advance (turn_clockwise d) p # cells)"

text \<open>
  Following a list of directions step by step: the state reached, the cost and the cells
  passed, or \<open>None\<close> when a step is a reversal or enters a cell that cannot be passed.
\<close>

fun walk ::
  "maze \<Rightarrow> int \<Rightarrow> int \<Rightarrow> (position \<times> direction) \<times> int \<times> position list \<Rightarrow> direction list
     \<Rightarrow> ((position \<times> direction) \<times> int \<times> position list) option" where
  "walk maze m t w [] = Some w"
| "walk maze m t ((p, d), c, cells) (d' # ds) =
     (if \<not> passable maze (advance d' p) then None
      else if d' = d then walk maze m t ((advance d' p, d'), c + m, advance d' p # cells) ds
      else if d' = turn_counter_clockwise d \<or> d' = turn_clockwise d
      then walk maze m t ((advance d' p, d'), c + m + t, advance d' p # cells) ds
      else None)"

text \<open>
  The position of the first cell of a kind in row-major order, \<open>None\<close> when there is no
  such cell (the specification's \<^verbatim>\<open>find\<close>).
\<close>

fun spec_find_in_row :: "cell \<Rightarrow> nat \<Rightarrow> tile list \<Rightarrow> nat option" where
  "spec_find_in_row k x [] = None"
| "spec_find_in_row k x (c # cs) = (if c = Kind k then Some x else spec_find_in_row k (Suc x) cs)"

fun spec_find_from :: "cell \<Rightarrow> nat \<Rightarrow> maze \<Rightarrow> position option" where
  "spec_find_from k y [] = None"
| "spec_find_from k y (row # rows) =
     (case spec_find_in_row k 0 row of
        Some x \<Rightarrow> Some (Position (int x) (int y))
      | None \<Rightarrow> spec_find_from k (Suc y) rows)"

definition spec_find :: "cell \<Rightarrow> maze \<Rightarrow> position option" where
  "spec_find k maze = spec_find_from k 0 maze"

section \<open>Invariants of the two loops\<close>

definition step_position :: "step \<Rightarrow> position" where
  "step_position e = (case e of (cost, count, position, direction) \<Rightarrow> position)"

definition step_direction :: "step \<Rightarrow> direction" where
  "step_direction e = (case e of (cost, count, position, direction) \<Rightarrow> direction)"

text \<open>Some route leads from the start state to a state.\<close>

definition arrives :: "maze \<Rightarrow> position \<times> direction \<Rightarrow> int \<Rightarrow> int \<Rightarrow> position \<times> direction \<Rightarrow> bool" where
  "arrives maze start m t state \<longleftrightarrow> (\<exists>c cells. route maze start m t state c cells)"

text \<open>
  Every entry of the queue of \<^verbatim>\<open>min_cost_to_end\<close> lies inside the grid, and its state is
  the end of a route when its cell can be passed.
\<close>

definition mc_inv :: "maze \<Rightarrow> position \<times> direction \<Rightarrow> int \<Rightarrow> int \<Rightarrow> mc_state \<Rightarrow> bool" where
  "mc_inv maze start m t s \<longleftrightarrow>
     (\<forall>entry\<in>set (mc_queue s).
        inside maze (step_position entry) \<and>
        (passable maze (step_position entry)
           \<longrightarrow> arrives maze start m t (step_position entry, step_direction entry)))"

text \<open>
  For \<^verbatim>\<open>count_best_path_tiles\<close> the cost of a queue entry is the cost of such a route;
  the cost recorded for the end position never exceeds the sentinel; every collected
  entry is the end of a route that costs no more than the sentinel.
\<close>

definition node_ok :: "maze \<Rightarrow> position \<times> direction \<Rightarrow> int \<Rightarrow> int \<Rightarrow> node \<Rightarrow> bool" where
  "node_ok maze start m t n \<longleftrightarrow>
     inside maze (node_position n) \<and>
     (passable maze (node_position n)
        \<longrightarrow> (\<exists>cells. route maze start m t (node_position n, node_direction n) (node_cost n) cells))"

definition bp_inv ::
  "maze \<Rightarrow> position \<times> direction \<Rightarrow> int \<Rightarrow> int \<Rightarrow> position \<Rightarrow> bp_state \<Rightarrow> bool" where
  "bp_inv maze start m t e s \<longleftrightarrow>
     (\<forall>n\<in>set (bp_queue s). node_ok maze start m t n) \<and>
     (\<exists>v. bp_min_cost_to_position s e = Some v \<and> v \<le> SENTINEL) \<and>
     (\<forall>n\<in>set (bp_best_paths s).
        node_cost n \<le> SENTINEL \<and>
        (\<exists>cells. route maze start m t (e, node_direction n) (node_cost n) cells))"

text \<open>
  The loop of \<^verbatim>\<open>count_best_path_tiles\<close> ends on an enclosed grid when neither cost is
  negative and one of them is positive. An entry is expanded only when its cost is at
  most the sentinel; a successor either costs more, or it is the step forward at the same
  cost, one cell nearer to the edge of the grid. So the rank of each successor is below
  the rank of the entry, and this weight of the queue decreases with every iteration.
\<close>

definition edge_distance :: "maze \<Rightarrow> position \<Rightarrow> direction \<Rightarrow> nat" where
  "edge_distance maze p d =
     (case d of
        NORTH \<Rightarrow> nat (pos_y p)
      | SOUTH \<Rightarrow> nat (int (length maze) - 1 - pos_y p)
      | WEST \<Rightarrow> nat (pos_x p)
      | EAST \<Rightarrow> nat (int (length (hd maze)) - 1 - pos_x p))"

definition node_rank :: "maze \<Rightarrow> node \<Rightarrow> nat" where
  "node_rank maze n =
     nat (SENTINEL + 1 - node_cost n) * (length maze + length (hd maze))
       + edge_distance maze (node_position n) (node_direction n)"

definition weight :: "maze \<Rightarrow> node \<Rightarrow> nat" where
  "weight maze n = 4 ^ node_rank maze n"

definition queue_weight :: "maze \<Rightarrow> node list \<Rightarrow> nat" where
  "queue_weight maze q = sum_list (map (weight maze) q)"

section \<open>Certificates for lower bounds on the cost of routes\<close>

text \<open>
  A potential \<open>\<phi>\<close> on states certifies lower bounds when no move into a cell that can be
  passed lets it grow by more than the cost of the move: then every route from a state
  with potential at most 0 to a state \<open>s\<close> costs at least \<open>\<phi> s\<close>. The check runs over
  the cells of the grid that are no walls.
\<close>

definition potential_of :: "((position \<times> direction) \<times> int) list \<Rightarrow> position \<times> direction \<Rightarrow> int" where
  "potential_of table s = (case map_of table s of Some v \<Rightarrow> v | None \<Rightarrow> 0)"

definition step_bounded ::
  "maze \<Rightarrow> int \<Rightarrow> int \<Rightarrow> (position \<times> direction \<Rightarrow> int) \<Rightarrow> position \<Rightarrow> direction \<Rightarrow> bool" where
  "step_bounded maze m t \<phi> p d \<longleftrightarrow>
     (\<not> passable maze (advance d p) \<or> \<phi> (advance d p, d) \<le> \<phi> (p, d) + m) \<and>
     (\<not> passable maze (advance (turn_counter_clockwise d) p)
        \<or> \<phi> (advance (turn_counter_clockwise d) p, turn_counter_clockwise d) \<le> \<phi> (p, d) + m + t) \<and>
     (\<not> passable maze (advance (turn_clockwise d) p)
        \<or> \<phi> (advance (turn_clockwise d) p, turn_clockwise d) \<le> \<phi> (p, d) + m + t)"

definition lower_bound_certificate ::
  "maze \<Rightarrow> int \<Rightarrow> int \<Rightarrow> (position \<times> direction \<Rightarrow> int) \<Rightarrow> bool" where
  "lower_bound_certificate maze m t \<phi> \<longleftrightarrow>
     list_all (\<lambda>(y, row).
        list_all (\<lambda>(x, c). c = Kind WALL \<or>
            list_all (step_bounded maze m t \<phi> (Position (int x) (int y)))
              [NORTH, EAST, SOUTH, WEST])
          (enumerate 0 row))
       (enumerate 0 maze)"

section \<open>Example mazes\<close>

text \<open>A maze written as its rows of text is the maze \<open>read_maze\<close> builds from them.\<close>

definition maze_of :: "string list \<Rightarrow> maze" where
  "maze_of rows = (case read_maze (map (map of_char) rows) of Inl e \<Rightarrow> [] | Inr maze \<Rightarrow> maze)"

definition detour_maze :: maze where
  "detour_maze =
     maze_of [''#####'',
              ''#..E#'',
              ''#..##'',
              ''##..#'',
              ''#...#'',
              ''#.#.#'',
              ''#S..#'',
              ''#####'']"

definition zigzag_maze :: maze where
  "zigzag_maze =
     maze_of [''#######'',
              ''#....E#'',
              ''#.#####'',
              ''#.....#'',
              ''##.##.#'',
              ''#..##.#'',
              ''#.###.#'',
              ''#S....#'',
              ''#######'']"

definition open_maze :: maze where
  "open_maze = maze_of [''....'', ''..E.'', ''.S..'', ''....'']"

definition walled_off_maze :: maze where
  "walled_off_maze = maze_of [''#####'', ''#S#E#'', ''#####'']"

definition single_cell_maze :: maze where
  "single_cell_maze = maze_of [''###'', ''#S#'', ''###'']"

definition corner_maze :: maze where
  "corner_maze = maze_of [''S.E'', ''...'', ''...'']"

definition blank_maze :: maze where
  "blank_maze = maze_of [''...'', ''...'', ''...'']"

definition boxed_maze :: maze where
  "boxed_maze = maze_of [''####'', ''#.E#'', ''#S.#'', ''####'']"

definition sealed_maze :: maze where
  "sealed_maze = maze_of [''#####'', ''#.#E#'', ''#S#.#'', ''#####'']"

text \<open>
  The least cost of a route from the start state of \<open>detour_maze\<close> to each state on a
  cell that can be passed, for move cost 1 and turn cost 1000 (for a state that no
  route reaches, the greatest of these costs).
\<close>

definition detour_distances :: "((position \<times> direction) \<times> int) list" where
  "detour_distances =
     [((Position 1 1, NORTH), 5007),
      ((Position 1 1, EAST), 7010),
      ((Position 1 1, SOUTH), 7010),
      ((Position 1 1, WEST), 4007),
      ((Position 2 1, NORTH), 3006),
      ((Position 2 1, EAST), 6008),
      ((Position 2 1, SOUTH), 7010),
      ((Position 2 1, WEST), 7010),
      ((Position 3 1, NORTH), 7010),
      ((Position 3 1, EAST), 4007),
      ((Position 3 1, SOUTH), 7010),
      ((Position 3 1, WEST), 7010),
      ((Position 1 2, NORTH), 7010),
      ((Position 1 2, EAST), 7010),
      ((Position 1 2, SOUTH), 5008),
      ((Position 1 2, WEST), 4006),
      ((Position 2 2, NORTH), 3005),
      ((Position 2 2, EAST), 6009),
      ((Position 2 2, SOUTH), 7009),
      ((Position 2 2, WEST), 7010),
      ((Position 2 3, NORTH), 3004),
      ((Position 2 3, EAST), 7010),
      ((Position 2 3, SOUTH), 7010),
      ((Position 2 3, WEST), 2006),
      ((Position 3 3, NORTH), 1005),
      ((Position 3 3, EAST), 4005),
      ((Position 3 3, SOUTH), 7010),
      ((Position 3 3, WEST), 7010),
      ((Position 1 4, NORTH), 1002),
      ((Position 1 4, EAST), 7010),
      ((Position 1 4, SOUTH), 7010),
      ((Position 1 4, WEST), 2006),
      ((Position 2 4, NORTH), 7010),
      ((Position 2 4, EAST), 2003),
      ((Position 2 4, SOUTH), 3007),
      ((Position 2 4, WEST), 2005),
      ((Position 3 4, NORTH), 1004),
      ((Position 3 4, EAST), 2004),
      ((Position 3 4, SOUTH), 5006),
      ((Position 3 4, WEST), 7010),
      ((Position 1 5, NORTH), 1001),
      ((Position 1 5, EAST), 7010),
      ((Position 1 5, SOUTH), 3007),
      ((Position 1 5, WEST), 7010),
      ((Position 3 5, NORTH), 1003),
      ((Position 3 5, EAST), 7010),
      ((Position 3 5, SOUTH), 3005),
      ((Position 3 5, WEST), 7010),
      ((Position 1 6, NORTH), 7010),
      ((Position 1 6, EAST), 0),
      ((Position 1 6, SOUTH), 3008),
      ((Position 1 6, WEST), 4008),
      ((Position 2 6, NORTH), 7010),
      ((Position 2 6, EAST), 1),
      ((Position 2 6, SOUTH), 7010),
      ((Position 2 6, WEST), 4007),
      ((Position 3 6, NORTH), 7010),
      ((Position 3 6, EAST), 2),
      ((Position 3 6, SOUTH), 3006),
      ((Position 3 6, WEST), 7010)]"

section \<open>Termination of the minimum cost search\<close>

lemma finite_subscriptable: "finite (subscriptable maze)"
  unfolding subscriptable_def by auto

lemma getitem_Inr_range:
  "getitem xs i = Inr v \<Longrightarrow> - int (length xs) \<le> i \<and> i < int (length xs)"
  by (auto simp: getitem_def split: if_splits)

lemma getitem_Inr_nth:
  "getitem xs i = Inr v \<Longrightarrow>
     \<exists>j < length xs. v = xs ! j \<and> (i = int j \<or> i = int j - int (length xs))"
proof (cases "0 \<le> i")
  case True
  assume "getitem xs i = Inr v"
  with True have "nat i < length xs \<and> v = xs ! nat i \<and> i = int (nat i)"
    by (auto simp: getitem_def split: if_splits)
  then show ?thesis by blast
next
  case False
  assume "getitem xs i = Inr v"
  with False have "nat (i + int (length xs)) < length xs \<and> v = xs ! nat (i + int (length xs))
      \<and> i = int (nat (i + int (length xs))) - int (length xs)"
    by (auto simp: getitem_def split: if_splits)
  then show ?thesis by blast
qed

lemma cell_at_subscriptable:
  assumes "cell_at maze p = Inr c"
  shows "p \<in> subscriptable maze"
proof -
  from assms obtain row where row: "getitem maze (pos_y p) = Inr row"
    and c: "getitem row (pos_x p) = Inr c"
    by (auto simp: cell_at_def split: sum.splits)
  from getitem_Inr_nth[OF row] obtain j where j: "j < length maze" "row = maze ! j"
    "pos_y p = int j \<or> pos_y p = int j - int (length maze)" by blast
  from getitem_Inr_range[OF c] j(2)
  have x: "pos_x p \<in> {- int (length (maze ! j)) ..< int (length (maze ! j))}" by simp
  have "p = Position (pos_x p) (pos_y p)" by simp
  with x j(3) have "p \<in> (\<lambda>(i, k). Position i k) `
          ({- int (length (maze ! j)) ..< int (length (maze ! j))}
             \<times> {int j, int j - int (length maze)})"
    by (metis (mono_tags, lifting) SigmaI case_prod_conv image_eqI insertCI)
  with j(1) show ?thesis unfolding subscriptable_def by auto
qed

lemma card_subscriptable_insert:
  assumes "p \<in> subscriptable maze" "p \<notin> V"
  shows "card (subscriptable maze - insert p V) < card (subscriptable maze - V)"
  using assms finite_subscriptable[of maze]
  by (intro psubset_card_mono) auto

lemma min_cost_iteration_progress:
  assumes "min_cost_iteration maze e m t s = Inr s'"
  shows "(mc_visited s' = mc_visited s \<and> length (mc_queue s') < length (mc_queue s))
       \<or> (\<exists>p c. p \<notin> mc_visited s \<and> cell_at maze p = Inr c
                 \<and> mc_visited s' = insert p (mc_visited s))"
proof (cases "mc_queue s")
  case Nil
  with assms show ?thesis by (simp add: min_cost_iteration_def)
next
  case (Cons entry rest)
  obtain cost n p d where entry: "entry = (cost, n, p, d)" by (cases entry) auto
  show ?thesis
  proof (cases "p \<in> mc_visited s")
    case True
    with assms Cons entry show ?thesis
      by (auto simp: min_cost_iteration_def split: if_splits)
  next
    case False
    with assms Cons entry obtain c where "cell_at maze p = Inr c"
      "mc_visited s' = insert p (mc_visited s)"
      by (auto simp: min_cost_iteration_def Let_def split: if_splits sum.splits)
    with False show ?thesis by blast
  qed
qed

lemma min_cost_iteration_decreases:
  assumes "min_cost_iteration maze e m t s = Inr s'"
  shows "(mc_measure maze s', mc_measure maze s) \<in> less_than <*lex*> less_than"
  using min_cost_iteration_progress[OF assms]
proof (elim disjE exE conjE)
  assume "mc_visited s' = mc_visited s" "length (mc_queue s') < length (mc_queue s)"
  then show ?thesis by (simp add: mc_measure_def)
next
  fix p c
  assume "p \<notin> mc_visited s" "cell_at maze p = Inr c"
    "mc_visited s' = insert p (mc_visited s)"
  then show ?thesis
    using card_subscriptable_insert[OF cell_at_subscriptable, of maze p c "mc_visited s"]
    by (simp add: mc_measure_def)
qed

termination min_cost_loop
  by (relation "inv_image (less_than <*lex*> less_than) (\<lambda>(maze, e, m, t, s). mc_measure maze s)")
     (auto dest: min_cost_iteration_decreases)

section \<open>Evaluating the searches\<close>

lemmas parse_simps = maze_of_def strip_def py_isspace_def interpret_char_as_cell_def

lemmas min_cost_simps = min_cost_to_end_def mc_initial_def find_start_position_def
  find_end_position_def getitem_def min_cost_iteration_def cell_at_def advance_def key_less_def
  step_key_def Let_def

lemmas count_best_simps = count_best_path_tiles_def bp_initial_def find_start_position_def
  find_end_position_def getitem_def count_best_iteration_def cell_at_def advance_def key_less_def
  node_key_def Let_def SENTINEL_def count_best_loop.simps best_path_positions_def mark_maze_def
  mark_row_def enumerate_eq_zip

lemma min_cost_after_numeral:
  "min_cost_after (numeral n) maze e m t s =
     (case min_cost_iteration maze e m t s of
        Inl r \<Rightarrow> Inl r
      | Inr s' \<Rightarrow> min_cost_after (pred_numeral n) maze e m t s')"
  by (simp add: numeral_eq_Suc)

lemma count_best_after_numeral:
  "count_best_after (numeral k) maze e m t s =
     (case bp_queue s of
        [] \<Rightarrow> Inr s
      | n # rest \<Rightarrow>
          (case count_best_iteration maze e m t n (s\<lparr>bp_queue := rest\<rparr>) of
             Inl err \<Rightarrow> Inl err
           | Inr s' \<Rightarrow> count_best_after (pred_numeral k) maze e m t s'))"
  by (simp add: numeral_eq_Suc)

text \<open>A walk that succeeds extends a route.\<close>

lemma walk_route:
  "route maze start m t s c cells \<Longrightarrow> walk maze m t (s, c, cells) ds = Some (s', c', cells')
   \<Longrightarrow> route maze start m t s' c' cells'"
proof (induction ds arbitrary: s c cells)
  case Nil
  then show ?case by simp
next
  case (Cons d' ds)
  obtain p d where s: "s = (p, d)" by (cases s)
  from Cons.prems(2) s have ok: "passable maze (advance d' p)"
    by (auto split: if_splits)
  show ?case
  proof (cases "d' = d")
    case True
    with Cons.prems s ok have "route maze start m t (advance d' p, d') (c + m) (advance d' p # cells)"
      by (auto intro: route_forward)
    moreover from Cons.prems(2) s ok True
    have "walk maze m t ((advance d' p, d'), c + m, advance d' p # cells) ds = Some (s', c', cells')"
      by simp
    ultimately show ?thesis by (rule Cons.IH)
  next
    case False
    with Cons.prems(2) s ok have turn: "d' = turn_counter_clockwise d \<or> d' = turn_clockwise d"
      and w: "walk maze m t ((advance d' p, d'), c + m + t, advance d' p # cells) ds
                = Some (s', c', cells')"
      by (auto split: if_splits)
    from turn Cons.prems(1) s ok
    have "route maze start m t (advance d' p, d') (c + m + t) (advance d' p # cells)"
      by (auto intro: route_left route_right)
    then show ?thesis using w by (rule Cons.IH)
  qed
qed

lemma detour_maze_rows:
  "detour_maze = [[Kind WALL, Kind WALL, Kind WALL, Kind WALL, Kind WALL],
                  [Kind WALL, Kind EMPTY, Kind EMPTY, Kind END, Kind WALL],
                  [Kind WALL, Kind EMPTY, Kind EMPTY, Kind WALL, Kind WALL],
                  [Kind WALL, Kind WALL, Kind EMPTY, Kind EMPTY, Kind WALL],
                  [Kind WALL, Kind EMPTY, Kind EMPTY, Kind EMPTY, Kind WALL],
                  [Kind WALL, Kind EMPTY, Kind WALL, Kind EMPTY, Kind WALL],
                  [Kind WALL, Kind START, Kind EMPTY, Kind EMPTY, Kind WALL],
                  [Kind WALL, Kind WALL, Kind WALL, Kind WALL, Kind WALL]]"
  by (simp add: detour_maze_def parse_simps)

lemma boxed_maze_rows:
  "boxed_maze = [[Kind WALL, Kind WALL, Kind WALL, Kind WALL],
                 [Kind WALL, Kind EMPTY, Kind END, Kind WALL],
                 [Kind WALL, Kind START, Kind EMPTY, Kind WALL],
                 [Kind WALL, Kind WALL, Kind WALL, Kind WALL]]"
  by (simp add: boxed_maze_def parse_simps)

lemma sealed_maze_rows:
  "sealed_maze = [[Kind WALL, Kind WALL, Kind WALL, Kind WALL, Kind WALL],
                  [Kind WALL, Kind EMPTY, Kind WALL, Kind END, Kind WALL],
                  [Kind WALL, Kind START, Kind WALL, Kind EMPTY, Kind WALL],
                  [Kind WALL, Kind WALL, Kind WALL, Kind WALL, Kind WALL]]"
  by (simp add: sealed_maze_def parse_simps)

lemma open_maze_rows:
  "open_maze = [[Kind EMPTY, Kind EMPTY, Kind EMPTY, Kind EMPTY],
                [Kind EMPTY, Kind EMPTY, Kind END, Kind EMPTY],
                [Kind EMPTY, Kind START, Kind EMPTY, Kind EMPTY],
                [Kind EMPTY, Kind EMPTY, Kind EMPTY, Kind EMPTY]]"
  by (simp add: open_maze_def parse_simps)

lemma walled_off_maze_rows:
  "walled_off_maze = [[Kind WALL, Kind WALL, Kind WALL, Kind WALL, Kind WALL],
                      [Kind WALL, Kind START, Kind WALL, Kind END, Kind WALL],
                      [Kind WALL, Kind WALL, Kind WALL, Kind WALL, Kind WALL]]"
  by (simp add: walled_off_maze_def parse_simps)

lemma enclosed_boxed_maze: "enclosed boxed_maze"
  by (simp add: boxed_maze_def parse_simps enclosed_def)

section \<open>Routes\<close>

lemma route_closed:
  assumes "route maze start m t s c cells" "fst start \<in> A"
    and step: "\<And>p d. p \<in> A \<Longrightarrow> passable maze (advance d p) \<Longrightarrow> advance d p \<in> A"
  shows "fst s \<in> A"
  using assms(1,2) by (induction rule: route.induct) (auto intro: step)

lemma route_cost_nonneg:
  assumes "0 \<le> m" "0 \<le> t" "route maze start m t s c cells"
  shows "0 \<le> c"
  using assms(3,1,2) by (induction rule: route.induct) auto

lemma route_east_row:
  assumes "0 \<le> m" "0 \<le> t" "route maze (p0, EAST) m t (p, d) c cells" "c < t"
  shows "d = EAST \<and> pos_y p = pos_y p0"
  using assms(3,1,2,4)
proof (induction "(p, d)" c cells arbitrary: p d rule: route.induct)
  case route_start
  then show ?case by simp
next
  case (route_forward p' d' c cells)
  then show ?case by (auto simp: advance_def)
next
  case (route_left p' d' c cells)
  from route_cost_nonneg[OF route_left.prems(1,2) route_left.hyps(1)] route_left.prems
  show ?case by simp
next
  case (route_right p' d' c cells)
  from route_cost_nonneg[OF route_right.prems(1,2) route_right.hyps(1)] route_right.prems
  show ?case by simp
qed

lemma arrives_start: "passable maze p \<Longrightarrow> arrives maze (p, d) m t (p, d)"
  unfolding arrives_def using route_start[of maze "(p, d)" m t] by auto

lemma arrives_step:
  assumes "arrives maze start m t (p, d)" "passable maze (advance d' p)"
    and "d' = d \<or> d' = turn_counter_clockwise d \<or> d' = turn_clockwise d"
  shows "arrives maze start m t (advance d' p, d')"
  using assms unfolding arrives_def
  by (auto intro: route_forward route_left route_right)

lemma sealed_maze_unreachable:
  "\<not> (\<exists>d c cells. route sealed_maze (Position 1 2, sd) m t (Position 3 1, d) c cells)"
proof
  assume "\<exists>d c cells. route sealed_maze (Position 1 2, sd) m t (Position 3 1, d) c cells"
  then obtain d c cells where r: "route sealed_maze (Position 1 2, sd) m t (Position 3 1, d) c cells"
    by blast
  have "fst (Position 3 1, d) \<in> {Position 1 1, Position 1 2}"
  proof (rule route_closed[OF r])
    show "fst (Position 1 2, sd) \<in> {Position 1 1, Position 1 2}" by simp
  next
    fix p d'
    assume "p \<in> {Position 1 1, Position 1 2}" "passable sealed_maze (advance d' p)"
    then show "advance d' p \<in> {Position 1 1, Position 1 2}"
      by (cases d') (auto simp: sealed_maze_rows passable_def advance_def)
  qed
  then show False by simp
qed

lemma route_passable: "route maze start m t s c cells \<Longrightarrow> passable maze (fst s)"
  by (induction rule: route.induct) simp_all

lemma direction_UNIV: "d \<in> set [NORTH, EAST, SOUTH, WEST]"
  by (cases d) simp_all

lemma certificate_step:
  assumes cert: "lower_bound_certificate maze m t \<phi>" and pass: "passable maze p"
  shows "step_bounded maze m t \<phi> p d"
proof -
  let ?y = "nat (pos_y p)" and ?x = "nat (pos_x p)"
  from pass have y: "?y < length maze" and x: "?x < length (maze ! ?y)"
    and c: "maze ! ?y ! ?x \<noteq> Kind WALL"
    by (auto simp: passable_def)
  from pass have "int ?x = pos_x p" "int ?y = pos_y p" by (simp_all add: passable_def)
  then have p: "Position (int ?x) (int ?y) = p" by (cases p) simp
  from y have my: "(?y, maze ! ?y) \<in> set (enumerate 0 maze)" by (simp add: in_set_enumerate_eq)
  from cert have "\<forall>yr\<in>set (enumerate 0 maze). case yr of (y, row) \<Rightarrow>
        list_all (\<lambda>(x, c). c = Kind WALL \<or>
            list_all (step_bounded maze m t \<phi> (Position (int x) (int y)))
              [NORTH, EAST, SOUTH, WEST])
          (enumerate 0 row)"
    by (simp add: lower_bound_certificate_def list_all_iff)
  then have "case (?y, maze ! ?y) of (y, row) \<Rightarrow>
        list_all (\<lambda>(x, c). c = Kind WALL \<or>
            list_all (step_bounded maze m t \<phi> (Position (int x) (int y)))
              [NORTH, EAST, SOUTH, WEST])
          (enumerate 0 row)" using my by (rule bspec)
  then have row: "\<forall>xc\<in>set (enumerate 0 (maze ! ?y)). case xc of (x, c) \<Rightarrow> c = Kind WALL \<or>
            list_all (step_bounded maze m t \<phi> (Position (int x) (int ?y)))
              [NORTH, EAST, SOUTH, WEST]"
    by (simp add: list_all_iff)
  from x have mx: "(?x, maze ! ?y ! ?x) \<in> set (enumerate 0 (maze ! ?y))"
    by (simp add: in_set_enumerate_eq)
  from row mx have "case (?x, maze ! ?y ! ?x) of (x, c) \<Rightarrow> c = Kind WALL \<or>
            list_all (step_bounded maze m t \<phi> (Position (int x) (int ?y)))
              [NORTH, EAST, SOUTH, WEST]" by (rule bspec)
  with c p have "list_all (step_bounded maze m t \<phi> p) [NORTH, EAST, SOUTH, WEST]" by simp
  then show ?thesis by (cases d) simp_all
qed

lemma route_lower_bound:
  assumes cert: "lower_bound_certificate maze m t \<phi>" and start: "\<phi> start \<le> 0"
    and r: "route maze start m t s c cells"
  shows "\<phi> s \<le> c"
  using r
proof (induction rule: route.induct)
  case route_start
  from start show ?case by simp
next
  case (route_forward p d c cells)
  from route_passable[OF route_forward.hyps(1)] have "passable maze p" by simp
  from certificate_step[OF cert this, of d] route_forward.hyps(2) route_forward.IH
  show ?case by (simp add: step_bounded_def)
next
  case (route_left p d c cells)
  from route_passable[OF route_left.hyps(1)] have "passable maze p" by simp
  from certificate_step[OF cert this, of d] route_left.hyps(2) route_left.IH
  show ?case by (simp add: step_bounded_def)
next
  case (route_right p d c cells)
  from route_passable[OF route_right.hyps(1)] have "passable maze p" by simp
  from certificate_step[OF cert this, of d] route_right.hyps(2) route_right.IH
  show ?case by (simp add: step_bounded_def)
qed

lemma detour_certificate:
  "lower_bound_certificate detour_maze 1 1000 (potential_of detour_distances)"
  unfolding detour_maze_rows
  by (simp add: lower_bound_certificate_def enumerate_eq_zip step_bounded_def passable_def
        advance_def potential_of_def detour_distances_def)

lemma detour_minimum:
  "\<not> (\<exists>d c cells. route detour_maze (Position 1 6, EAST) 1 1000 (Position 3 1, d) c cells
          \<and> c < 4007)"
proof
  assume "\<exists>d c cells. route detour_maze (Position 1 6, EAST) 1 1000 (Position 3 1, d) c cells
          \<and> c < 4007"
  then obtain d c cells where
    r: "route detour_maze (Position 1 6, EAST) 1 1000 (Position 3 1, d) c cells" and c: "c < 4007"
    by blast
  have "potential_of detour_distances (Position 1 6, EAST) \<le> 0"
    by (simp add: potential_of_def detour_distances_def)
  from route_lower_bound[OF detour_certificate this r]
  have "potential_of detour_distances (Position 3 1, d) \<le> c" .
  moreover have "4007 \<le> potential_of detour_distances (Position 3 1, d)"
    by (cases d) (simp_all add: potential_of_def detour_distances_def)
  ultimately show False using c by simp
qed

lemma detour_cheap_route:
  "route detour_maze (Position 1 6, EAST) 1 1000 (Position 3 1, EAST) 4007
     [Position 3 1, Position 2 1, Position 2 2, Position 2 3, Position 2 4, Position 1 4,
      Position 1 5, Position 1 6]"
proof -
  have "passable detour_maze (Position 1 6)"
    by (simp add: detour_maze_rows passable_def)
  then have "route detour_maze (Position 1 6, EAST) 1 1000 (Position 1 6, EAST) 0 [Position 1 6]"
    using route_start[of detour_maze "(Position 1 6, EAST)"] by simp
  moreover have "walk detour_maze 1 1000 ((Position 1 6, EAST), 0, [Position 1 6])
         [NORTH, NORTH, EAST, NORTH, NORTH, NORTH, EAST]
       = Some ((Position 3 1, EAST), 4007,
           [Position 3 1, Position 2 1, Position 2 2, Position 2 3, Position 2 4, Position 1 4,
            Position 1 5, Position 1 6])"
    by (simp add: detour_maze_rows passable_def advance_def)
  ultimately show ?thesis by (rule walk_route)
qed

section \<open>Grids enclosed by walls\<close>

lemma getitem_nonneg: "0 \<le> i \<Longrightarrow> i < int (length xs) \<Longrightarrow> getitem xs i = Inr (xs ! nat i)"
  by (simp add: getitem_def)

lemma enclosed_row_length:
  "enclosed maze \<Longrightarrow> j < length maze \<Longrightarrow> length (maze ! j) = length (hd maze)"
  by (simp add: enclosed_def)

lemma inside_cell_at:
  assumes "enclosed maze" "inside maze p"
  shows "cell_at maze p = Inr (maze ! nat (pos_y p) ! nat (pos_x p))"
proof -
  from assms(2) have y: "0 \<le> pos_y p" "pos_y p < int (length maze)"
    and x: "0 \<le> pos_x p" "pos_x p < int (length (hd maze))" by (simp_all add: inside_def)
  from y have "nat (pos_y p) < length maze" by simp
  with assms(1) have "length (maze ! nat (pos_y p)) = length (hd maze)"
    by (rule enclosed_row_length)
  with x y show ?thesis by (simp add: cell_at_def getitem_nonneg)
qed

lemma inside_passable:
  assumes "enclosed maze" "inside maze p"
  shows "passable maze p \<longleftrightarrow> cell_at maze p \<noteq> Inr (Kind WALL)"
proof -
  from assms(2) have y: "0 \<le> pos_y p" "pos_y p < int (length maze)"
    and x: "0 \<le> pos_x p" "pos_x p < int (length (hd maze))" by (simp_all add: inside_def)
  from y have "nat (pos_y p) < length maze" by simp
  with assms(1) have "length (maze ! nat (pos_y p)) = length (hd maze)"
    by (rule enclosed_row_length)
  with x y inside_cell_at[OF assms] show ?thesis by (simp add: passable_def)
qed

lemma enclosed_border:
  assumes "enclosed maze" "inside maze p"
    and edge: "pos_x p = 0 \<or> pos_x p = int (length (hd maze)) - 1
             \<or> pos_y p = 0 \<or> pos_y p = int (length maze) - 1"
  shows "maze ! nat (pos_y p) ! nat (pos_x p) = Kind WALL"
proof -
  let ?row = "maze ! nat (pos_y p)"
  from assms(2) have y: "0 \<le> pos_y p" "pos_y p < int (length maze)"
    and x: "0 \<le> pos_x p" "pos_x p < int (length (hd maze))" by (simp_all add: inside_def)
  from y have j: "nat (pos_y p) < length maze" by simp
  then have row: "?row \<in> set maze" by simp
  with assms(1) have len: "length ?row = length (hd maze)"
    and ends: "hd ?row = Kind WALL" "last ?row = Kind WALL"
    by (simp_all add: enclosed_def)
  from x len have i: "nat (pos_x p) < length ?row" by simp
  then have ne: "?row \<noteq> []" by auto
  from j have mne: "maze \<noteq> []" by auto
  from edge show ?thesis
  proof (elim disjE)
    assume "pos_x p = 0"
    with ends(1) ne show ?thesis by (simp add: hd_conv_nth)
  next
    assume "pos_x p = int (length (hd maze)) - 1"
    then have "nat (pos_x p) = length ?row - 1" using len by simp
    with ends(2) ne show ?thesis by (simp add: last_conv_nth)
  next
    assume "pos_y p = 0"
    then have "?row = hd maze" using mne by (simp add: hd_conv_nth)
    moreover from i have "?row ! nat (pos_x p) \<in> set ?row" by simp
    ultimately show ?thesis using assms(1) by (simp add: enclosed_def)
  next
    assume "pos_y p = int (length maze) - 1"
    then have "nat (pos_y p) = length maze - 1" by simp
    then have "?row = last maze" using mne by (simp add: last_conv_nth)
    moreover from i have "?row ! nat (pos_x p) \<in> set ?row" by simp
    ultimately show ?thesis using assms(1) by (simp add: enclosed_def)
  qed
qed

lemma inside_advance:
  assumes "enclosed maze" "inside maze p" "cell_at maze p = Inr c" "c \<noteq> Kind WALL"
  shows "inside maze (advance d p)"
proof -
  from inside_cell_at[OF assms(1,2)] assms(3,4)
  have nw: "maze ! nat (pos_y p) ! nat (pos_x p) \<noteq> Kind WALL" by simp
  with enclosed_border[OF assms(1,2)]
  have "pos_x p \<noteq> 0" "pos_x p \<noteq> int (length (hd maze)) - 1"
    "pos_y p \<noteq> 0" "pos_y p \<noteq> int (length maze) - 1" by auto
  with assms(2) show ?thesis
    by (cases d) (auto simp: inside_def advance_def)
qed

lemma inside_start: "enclosed maze \<Longrightarrow> inside maze (find_start_position maze)"
  by (simp add: enclosed_def inside_def find_start_position_def)

lemma enclosed_find_end:
  "enclosed maze \<Longrightarrow> find_end_position maze = Inr (Position (int (length (hd maze)) - 2) 1)"
  by (cases maze) (auto simp: enclosed_def find_end_position_def getitem_def)

lemma enclosed_is_within_bounds:
  "enclosed maze \<Longrightarrow> is_within_bounds maze p = Inr (inside maze p)"
  by (cases maze) (auto simp: enclosed_def is_within_bounds_def inside_def getitem_def)

lemma set_heappush: "set (heappush key q e) = insert e (set q)"
  by (induction q) auto

section \<open>The order of the queues\<close>

lemma in_order_heappush:
  "in_order key q \<Longrightarrow> in_order key (heappush key q e)"
proof (induction q)
  case Nil
  then show ?case by (simp add: in_order_def)
next
  case (Cons f q)
  then show ?case
    by (auto simp: in_order_def set_heappush key_less_def)
qed

lemma in_order_head_least:
  "in_order key (e # q) \<Longrightarrow> f \<in> set q \<Longrightarrow> \<not> key_less (key f) (key e)"
  by (auto simp: in_order_def)

lemma distinct_map_heappush:
  "distinct (map f (heappush key q e)) \<longleftrightarrow> f e \<notin> f ` set q \<and> distinct (map f q)"
  by (induction q) (auto simp: set_heappush)

lemma counts_fresh_heappush:
  "counts_fresh key q c \<Longrightarrow> snd (key e) = c \<Longrightarrow> counts_fresh key (heappush key q e) (c + 1)"
  by (force simp: counts_fresh_def distinct_map_heappush set_heappush)

lemma counts_fresh_tail: "counts_fresh key (e # q) c \<Longrightarrow> counts_fresh key q c"
  by (simp add: counts_fresh_def)

lemma in_order_tail: "in_order key (e # q) \<Longrightarrow> in_order key q"
  by (simp add: in_order_def)

lemma push_three:
  assumes "in_order key q" "counts_fresh key q c"
    and "snd (key x) = c" "snd (key y) = c + 1" "snd (key z) = c + 2"
  shows "in_order key (heappush key (heappush key (heappush key q x) y) z)
       \<and> counts_fresh key (heappush key (heappush key (heappush key q x) y) z) (c + 3)"
proof -
  from counts_fresh_heappush[OF assms(2,3)]
  have "counts_fresh key (heappush key q x) (c + 1)" .
  from counts_fresh_heappush[OF this assms(4)]
  have "counts_fresh key (heappush key (heappush key q x) y) (c + 1 + 1)" .
  from counts_fresh_heappush[OF this] assms(5)
  have "counts_fresh key (heappush key (heappush key (heappush key q x) y) z) (c + 1 + 1 + 1)"
    by simp
  with assms(1) show ?thesis by (simp add: in_order_heappush add.commute)
qed

lemma min_cost_queue_discipline:
  assumes "in_order step_key (mc_queue s)" "counts_fresh step_key (mc_queue s) (mc_counter s)"
    and "min_cost_iteration maze e m t s = Inr s'"
  shows "in_order step_key (mc_queue s') \<and> counts_fresh step_key (mc_queue s') (mc_counter s')"
proof (cases "mc_queue s")
  case Nil
  with assms(3) show ?thesis by (simp add: min_cost_iteration_def)
next
  case (Cons entry rest)
  obtain cost n p d where entry: "entry = (cost, n, p, d)" by (cases entry) auto
  from assms(1,2) Cons have rest: "in_order step_key rest"
    "counts_fresh step_key rest (mc_counter s)"
    by (auto dest: in_order_tail counts_fresh_tail)
  note push = push_three[OF rest, of "(c1, mc_counter s, p1, d1)" "(c2, mc_counter s + 1, p2, d2)"
      "(c3, mc_counter s + 2, p3, d3)" for c1 c2 c3 p1 p2 p3 d1 d2 d3, simplified step_key_def, simplified]
  from assms(3) Cons entry rest show ?thesis
    by (auto simp: min_cost_iteration_def Let_def push split: if_splits sum.splits)
qed

lemma count_best_queue_discipline:
  assumes "in_order node_key (n # rest)" "counts_fresh node_key (n # rest) (bp_counter s)"
    and "bp_queue s = rest" and "count_best_iteration maze e m t n s = Inr s'"
  shows "in_order node_key (bp_queue s') \<and> counts_fresh node_key (bp_queue s') (bp_counter s')"
proof -
  from assms(1,2,3) have rest: "in_order node_key (bp_queue s)"
    "counts_fresh node_key (bp_queue s) (bp_counter s)"
    by (auto dest: in_order_tail counts_fresh_tail)
  note push = push_three[OF rest, of "Node c1 (bp_counter s) p1 d1 n1"
      "Node c2 (bp_counter s + 1) p2 d2 n2" "Node c3 (bp_counter s + 2) p3 d3 n3"
      for c1 c2 c3 p1 p2 p3 d1 d2 d3 n1 n2 n3, simplified node_key_def, simplified]
  from assms(4) rest show ?thesis
    by (auto simp: count_best_iteration_def Let_def push
          split: if_splits sum.splits option.splits)
qed

section \<open>The minimum cost search on an enclosed grid\<close>

lemma mc_inv_initial:
  "enclosed maze \<Longrightarrow> mc_inv maze (find_start_position maze, sd) m t
     (mc_initial (find_start_position maze) sd)"
  by (simp add: mc_inv_def mc_initial_def step_position_def step_direction_def inside_start
        arrives_start)

lemma min_cost_iteration_inv:
  assumes enc: "enclosed maze" and inv: "mc_inv maze start m t s"
  shows "case min_cost_iteration maze e m t s of
           Inl (Inl err) \<Rightarrow> err = NoPathFound
         | Inl (Inr cost) \<Rightarrow> (\<exists>entry\<in>set (mc_queue s). step_position entry = e)
         | Inr s' \<Rightarrow> mc_inv maze start m t s'"
proof (cases "mc_queue s")
  case Nil
  then show ?thesis by (simp add: min_cost_iteration_def)
next
  case (Cons entry rest)
  obtain cost n p d where entry: "entry = (cost, n, p, d)" by (cases entry) auto
  from inv Cons entry have p_in: "inside maze p"
    and p_route: "passable maze p \<Longrightarrow> arrives maze start m t (p, d)"
    and rest: "\<forall>x\<in>set rest. inside maze (step_position x) \<and>
        (passable maze (step_position x)
           \<longrightarrow> arrives maze start m t (step_position x, step_direction x))"
    by (auto simp: mc_inv_def step_position_def step_direction_def)
  note cell = inside_cell_at[OF enc p_in]
  show ?thesis
  proof (cases "p = e")
    case True
    with Cons entry show ?thesis
      by (auto simp: min_cost_iteration_def step_position_def)
  next
    case ne: False
    show ?thesis
    proof (cases "p \<in> mc_visited s")
      case True
      with ne Cons entry rest show ?thesis
        by (simp add: min_cost_iteration_def mc_inv_def)
    next
      case nv: False
      show ?thesis
      proof (cases "maze ! nat (pos_y p) ! nat (pos_x p) = Kind WALL")
        case True
        with ne nv Cons entry rest cell show ?thesis
          by (simp add: min_cost_iteration_def mc_inv_def)
      next
        case nw: False
        with cell have pass: "passable maze p"
          using inside_passable[OF enc p_in] by simp
        have adv: "inside maze (advance d' p)" for d'
          using inside_advance[OF enc p_in cell nw] .
        have arr: "passable maze (advance d' p) \<Longrightarrow> arrives maze start m t (advance d' p, d')"
          if "d' = d \<or> d' = turn_counter_clockwise d \<or> d' = turn_clockwise d" for d'
          using arrives_step[OF p_route[OF pass] _ that] .
        from ne nv nw Cons entry cell rest adv arr show ?thesis
          by (simp add: min_cost_iteration_def mc_inv_def Let_def set_heappush
                step_position_def step_direction_def)
      qed
    qed
  qed
qed

lemma min_cost_after_inv:
  assumes "enclosed maze" "mc_inv maze start m t s" "min_cost_after k maze e m t s = Inr s'"
  shows "mc_inv maze start m t s'"
  using assms(2,3)
proof (induction k arbitrary: s)
  case 0
  then show ?case by simp
next
  case (Suc k)
  from Suc.prems(2) obtain s1 where s1: "min_cost_iteration maze e m t s = Inr s1"
    and rest: "min_cost_after k maze e m t s1 = Inr s'"
    by (auto split: sum.splits)
  from min_cost_iteration_inv[OF assms(1) Suc.prems(1), of e] s1
  have "mc_inv maze start m t s1" by simp
  then show ?case using rest by (rule Suc.IH)
qed

lemma min_cost_loop_inv:
  "enclosed maze \<Longrightarrow> mc_inv maze start m t s \<Longrightarrow>
     min_cost_loop maze e m t s = Inl NoPathFound
       \<or> (\<exists>cost d. min_cost_loop maze e m t s = Inr cost \<and> inside maze e
             \<and> (passable maze e \<longrightarrow> arrives maze start m t (e, d)))"
proof (induction maze e m t s rule: min_cost_loop.induct)
  case (1 maze e m t s)
  note step = min_cost_iteration_inv[OF "1.prems", of e]
  show ?case
  proof (cases "min_cost_iteration maze e m t s")
    case (Inl r)
    show ?thesis
    proof (cases r)
      case err: (Inl err)
      with Inl step have "min_cost_loop maze e m t s = Inl NoPathFound"
        by (subst min_cost_loop.simps) simp
      then show ?thesis by simp
    next
      case (Inr cost)
      with Inl step obtain entry where "entry \<in> set (mc_queue s)" "step_position entry = e"
        by auto
      with "1.prems" have "inside maze e"
        "passable maze e \<longrightarrow> arrives maze start m t (e, step_direction entry)"
        by (auto simp: mc_inv_def)
      moreover from Inl Inr have "min_cost_loop maze e m t s = Inr cost"
        by (subst min_cost_loop.simps) simp
      ultimately show ?thesis by blast
    qed
  next
    case (Inr s')
    with step have "mc_inv maze start m t s'" by simp
    have "min_cost_loop maze e m t s = min_cost_loop maze e m t s'"
      by (subst min_cost_loop.simps) (simp add: Inr)
    with "1.IH"[OF Inr "1.prems"(1) \<open>mc_inv maze start m t s'\<close>] show ?thesis
      by simp
  qed
qed

section \<open>The count of best path tiles on an enclosed grid\<close>

lemma queue_weight_heappush:
  "queue_weight maze (heappush key q n) = weight maze n + queue_weight maze q"
  by (induction q) (auto simp: queue_weight_def)

lemma weight_pos: "0 < weight maze n"
  by (simp add: weight_def)

lemma edge_distance_bound:
  "inside maze p \<Longrightarrow> edge_distance maze p d < length maze + length (hd maze)"
  by (cases d) (auto simp: inside_def edge_distance_def)

lemma edge_distance_forward:
  "inside maze p \<Longrightarrow> inside maze (advance d p)
     \<Longrightarrow> edge_distance maze (advance d p) d < edge_distance maze p d"
  by (cases d) (auto simp: inside_def edge_distance_def advance_def)

lemma node_rank_successor:
  assumes c: "node_cost n \<le> SENTINEL" and p': "inside maze (node_position n')"
    and step: "node_cost n + 1 \<le> node_cost n'
             \<or> (node_cost n' = node_cost n \<and> node_direction n' = node_direction n
                  \<and> node_position n' = advance (node_direction n) (node_position n)
                  \<and> inside maze (node_position n))"
  shows "node_rank maze n' < node_rank maze n"
  using step
proof
  assume dearer: "node_cost n + 1 \<le> node_cost n'"
  let ?L = "length maze + length (hd maze)"
  from c obtain j where j: "nat (SENTINEL + 1 - node_cost n) = Suc j"
    by (cases "nat (SENTINEL + 1 - node_cost n)") auto
  with dearer have "nat (SENTINEL + 1 - node_cost n') \<le> j" by linarith
  then have "nat (SENTINEL + 1 - node_cost n') * ?L \<le> j * ?L" by (rule mult_le_mono1)
  moreover note edge_distance_bound[OF p', of "node_direction n'"]
  ultimately have "node_rank maze n' < j * ?L + ?L" unfolding node_rank_def by linarith
  also have "\<dots> \<le> node_rank maze n" unfolding node_rank_def j by simp
  finally show ?thesis .
next
  assume "node_cost n' = node_cost n \<and> node_direction n' = node_direction n
          \<and> node_position n' = advance (node_direction n) (node_position n)
          \<and> inside maze (node_position n)"
  with p' edge_distance_forward[of maze "node_position n" "node_direction n"]
  show ?thesis by (simp add: node_rank_def)
qed

lemma weight_successor:
  assumes "node_cost n \<le> SENTINEL" "inside maze (node_position n')"
    and "node_cost n + 1 \<le> node_cost n'
       \<or> (node_cost n' = node_cost n \<and> node_direction n' = node_direction n
            \<and> node_position n' = advance (node_direction n) (node_position n)
            \<and> inside maze (node_position n))"
  shows "4 * weight maze n' \<le> weight maze n"
proof -
  from node_rank_successor[OF assms] have "Suc (node_rank maze n') \<le> node_rank maze n" by simp
  then have "(4::nat) ^ Suc (node_rank maze n') \<le> 4 ^ node_rank maze n"
    by (rule power_increasing) simp
  then show ?thesis by (simp add: weight_def)
qed

lemma bp_inv_initial:
  "enclosed maze \<Longrightarrow> bp_inv maze (find_start_position maze, sd) m t e
     (bp_initial (find_start_position maze) sd e)"
  using route_start[of maze "(find_start_position maze, sd)" m t]
  by (auto simp: bp_inv_def bp_initial_def node_ok_def inside_start)

lemma count_best_iteration_inv:
  assumes enc: "enclosed maze" and ok: "node_ok maze start m t n"
    and inv: "bp_inv maze start m t e s"
  shows "\<exists>s'. count_best_iteration maze e m t n s = Inr s' \<and> bp_inv maze start m t e s'
           \<and> (0 \<le> m \<longrightarrow> 0 \<le> t \<longrightarrow> 1 \<le> m + t
                \<longrightarrow> queue_weight maze (bp_queue s')
                      < weight maze n + queue_weight maze (bp_queue s))"
proof -
  let ?p = "node_position n" and ?d = "node_direction n" and ?c = "node_cost n"
  from ok have p_in: "inside maze ?p" by (simp add: node_ok_def)
  note cell = inside_cell_at[OF enc p_in]
  from inv obtain v where v: "bp_min_cost_to_position s e = Some v" "v \<le> SENTINEL"
    by (auto simp: bp_inv_def)
  note wp = weight_pos[of maze n]
  show ?thesis
  proof (cases "maze ! nat (pos_y ?p) ! nat (pos_x ?p) = Kind WALL")
    case True
    with cell inv wp show ?thesis by (simp add: count_best_iteration_def)
  next
    case nw: False
    with cell have pass: "passable maze ?p" using inside_passable[OF enc p_in] by simp
    with ok obtain cells where r: "route maze start m t (?p, ?d) ?c cells"
      by (auto simp: node_ok_def)
    show ?thesis
    proof (cases "?c > v")
      case True
      with cell nw v inv wp show ?thesis by (simp add: count_best_iteration_def)
    next
      case le: False
      show ?thesis
      proof (cases "case bp_min_cost_to_position s ?p of None \<Rightarrow> False | Some recorded \<Rightarrow> ?c > recorded")
        case True
        with cell nw v le inv wp show ?thesis by (simp add: count_best_iteration_def)
      next
        case keep: False
        show ?thesis
        proof (cases "?p = e")
          case True
          from le v have "?c \<le> SENTINEL" by simp
          with True r cell nw v le keep inv wp show ?thesis
            by (auto simp: count_best_iteration_def bp_inv_def)
        next
          case ne: False
          have adv: "inside maze (advance d' ?p)" for d'
            using inside_advance[OF enc p_in cell nw] .
          let ?l = "Node (t + (?c + m)) (bp_counter s) (advance (turn_counter_clockwise ?d) ?p)
                      (turn_counter_clockwise ?d) (Some n)"
          let ?f = "Node (?c + m) (bp_counter s + 1) (advance ?d ?p) ?d (Some n)"
          let ?r = "Node (t + (?c + m)) (bp_counter s + 2) (advance (turn_clockwise ?d) ?p)
                      (turn_clockwise ?d) (Some n)"
          let ?s' = "s\<lparr>bp_queue :=
                         heappush node_key (heappush node_key (heappush node_key (bp_queue s) ?l) ?f) ?r,
                       bp_min_cost_to_position := (bp_min_cost_to_position s)(?p \<mapsto> ?c),
                       bp_counter := bp_counter s + 3\<rparr>"
          have res: "count_best_iteration maze e m t n s = Inr ?s'"
            using cell nw v le keep ne by (simp add: count_best_iteration_def Let_def)
          have okl: "node_ok maze start m t ?l"
            using adv route_left[OF r] by (auto simp: node_ok_def add.commute add.left_commute)
          have okf: "node_ok maze start m t ?f"
            using adv route_forward[OF r] by (auto simp: node_ok_def)
          have okr: "node_ok maze start m t ?r"
            using adv route_right[OF r] by (auto simp: node_ok_def add.commute add.left_commute)
          have inv': "bp_inv maze start m t e ?s'"
            using inv okl okf okr ne v by (auto simp: bp_inv_def set_heappush)
          have less: "queue_weight maze (bp_queue ?s')
              < weight maze n + queue_weight maze (bp_queue s)"
            if "0 \<le> m" "0 \<le> t" "1 \<le> m + t"
          proof -
            from le v have c: "?c \<le> SENTINEL" by simp
            from that have "4 * weight maze ?l \<le> weight maze n"
              by (intro weight_successor[OF c]) (simp_all add: adv)
            moreover from that have "4 * weight maze ?r \<le> weight maze n"
              by (intro weight_successor[OF c]) (simp_all add: adv)
            moreover from that p_in have "4 * weight maze ?f \<le> weight maze n"
              by (intro weight_successor[OF c]) (auto simp: adv)
            ultimately show ?thesis using wp by (simp add: queue_weight_heappush)
          qed
          from res inv' less show ?thesis by blast
        qed
      qed
    qed
  qed
qed

lemma count_best_after_inv:
  assumes "enclosed maze"
  shows "bp_inv maze start m t e s \<Longrightarrow>
         \<exists>s'. count_best_after k maze e m t s = Inr s' \<and> bp_inv maze start m t e s'"
proof (induction k arbitrary: s)
  case 0
  then show ?case by simp
next
  case (Suc k)
  show ?case
  proof (cases "bp_queue s")
    case Nil
    with Suc.prems show ?thesis by simp
  next
    case (Cons n rest)
    with Suc.prems have "node_ok maze start m t n" "bp_inv maze start m t e (s\<lparr>bp_queue := rest\<rparr>)"
      by (auto simp: bp_inv_def)
    from count_best_iteration_inv[OF assms this]
    obtain s1 where "count_best_iteration maze e m t n (s\<lparr>bp_queue := rest\<rparr>) = Inr s1"
      "bp_inv maze start m t e s1" by blast
    with Suc.IH[of s1] Cons show ?thesis by simp
  qed
qed

lemma count_best_loop_total:
  assumes "enclosed maze" "0 \<le> m" "0 \<le> t" "1 \<le> m + t"
  shows "bp_inv maze start m t e s \<Longrightarrow>
         \<exists>s'. count_best_loop maze e m t s = Some (Inr s') \<and> bp_inv maze start m t e s'"
proof (induction "queue_weight maze (bp_queue s)" arbitrary: s rule: less_induct)
  case less
  show ?case
  proof (cases "bp_queue s")
    case Nil
    then have "count_best_loop maze e m t s = Some (Inr s)"
      by (subst count_best_loop.simps) simp
    with less.prems show ?thesis by blast
  next
    case (Cons n rest)
    with less.prems have "node_ok maze start m t n" "bp_inv maze start m t e (s\<lparr>bp_queue := rest\<rparr>)"
      by (auto simp: bp_inv_def)
    from count_best_iteration_inv[OF assms(1) this] assms(2,3,4)
    obtain s1 where s1: "count_best_iteration maze e m t n (s\<lparr>bp_queue := rest\<rparr>) = Inr s1"
      and inv1: "bp_inv maze start m t e s1"
      and "queue_weight maze (bp_queue s1) < weight maze n + queue_weight maze rest"
      by auto
    then have "queue_weight maze (bp_queue s1) < queue_weight maze (bp_queue s)"
      using Cons by (simp add: queue_weight_def)
    from less.hyps[OF this inv1] obtain s' where
      s': "count_best_loop maze e m t s1 = Some (Inr s')" "bp_inv maze start m t e s'" by blast
    have "count_best_loop maze e m t s = count_best_loop maze e m t s1"
      by (subst count_best_loop.simps) (simp add: Cons s1)
    with s' show ?thesis by simp
  qed
qed

lemma count_best_loop_sound_aux:
  assumes "count_best_loop maze e m t s = Some r"
  shows "enclosed maze \<longrightarrow> bp_inv maze start m t e s
           \<longrightarrow> (\<exists>s'. r = Inr s' \<and> bp_inv maze start m t e s')"
  using assms
proof (induct rule: count_best_loop.raw_induct[rotated 1, consumes 1])
  case (1 loop maze e m t s r)
  note IH = "1"(1) and eq = "1"(2)
  show ?case
  proof (intro impI)
    assume enc: "enclosed maze" and inv: "bp_inv maze start m t e s"
    show "\<exists>s'. r = Inr s' \<and> bp_inv maze start m t e s'"
    proof (cases "bp_queue s")
      case Nil
      with eq inv show ?thesis by auto
    next
      case (Cons n rest)
      with inv have "node_ok maze start m t n" "bp_inv maze start m t e (s\<lparr>bp_queue := rest\<rparr>)"
        by (auto simp: bp_inv_def)
      from count_best_iteration_inv[OF enc this]
      obtain s1 where s1: "count_best_iteration maze e m t n (s\<lparr>bp_queue := rest\<rparr>) = Inr s1"
        and inv1: "bp_inv maze start m t e s1" by blast
      from eq Cons s1 have "loop maze e m t s1 = Some r" by simp
      from IH[OF this] enc inv1 show ?thesis by blast
    qed
  qed
qed

lemma count_best_loop_sound:
  "count_best_loop maze e m t s = Some r \<Longrightarrow> enclosed maze \<Longrightarrow> bp_inv maze start m t e s
     \<Longrightarrow> \<exists>s'. r = Inr s' \<and> bp_inv maze start m t e s'"
  using count_best_loop_sound_aux by blast

lemma mark_row_empty: "mark_row {} y row = row"
  by (simp add: mark_row_def case_prod_unfold map_snd_enumerate)

lemma mark_maze_empty: "mark_maze {} maze = maze"
  by (simp add: mark_maze_def mark_row_empty case_prod_unfold map_snd_enumerate)

lemma count_best_path_tiles_partial:
  assumes enc: "enclosed maze"
    and far: "\<not> (\<exists>d c cells. route maze (find_start_position maze, sd) m t
                    (Position (int (length (hd maze)) - 2) 1, d) c cells \<and> c \<le> SENTINEL)"
  shows "count_best_path_tiles maze sd m t = None
       \<or> count_best_path_tiles maze sd m t = Some (Inr (0, maze))"
proof -
  let ?e = "Position (int (length (hd maze)) - 2) 1"
  let ?start = "find_start_position maze"
  note e = enclosed_find_end[OF enc]
  show ?thesis
  proof (cases "count_best_loop maze ?e m t (bp_initial ?start sd ?e)")
    case None
    with e show ?thesis by (simp add: count_best_path_tiles_def)
  next
    case (Some r)
    from count_best_loop_sound[OF Some enc bp_inv_initial[OF enc]] obtain s' where
      r: "r = Inr s'" and inv: "bp_inv maze (?start, sd) m t ?e s'" by blast
    have "bp_best_paths s' = []"
    proof (cases "bp_best_paths s'")
      case Nil
      then show ?thesis .
    next
      case (Cons n ns)
      with inv have "node_cost n \<le> SENTINEL"
        "\<exists>cells. route maze (?start, sd) m t (?e, node_direction n) (node_cost n) cells"
        by (auto simp: bp_inv_def)
      with far show ?thesis by blast
    qed
    with Some r e show ?thesis
      by (simp add: count_best_path_tiles_def best_path_positions_def mark_maze_empty)
  qed
qed


lemma count_best_path_tiles_returns:
  assumes enc: "enclosed maze" and m: "0 \<le> m" and t: "0 \<le> t" and mt: "1 \<le> m + t"
  shows "count_best_path_tiles maze sd m t \<noteq> None"
proof -
  let ?e = "Position (int (length (hd maze)) - 2) 1"
  from count_best_loop_total[OF enc m t mt bp_inv_initial[OF enc, of sd m t ?e]]
  obtain s' where "count_best_loop maze ?e m t (bp_initial (find_start_position maze) sd ?e)
      = Some (Inr s')" by blast
  with enclosed_find_end[OF enc] show ?thesis
    by (simp add: count_best_path_tiles_def Let_def)
qed
section \<open>Reading rows\<close>

lemma cell_UNIV: "(UNIV :: cell set) = {START, END, EMPTY, WALL}"
  using cell.exhaust by auto

lemma interpret_char_as_cell_Inr:
  "interpret_char_as_cell c = Inr k \<Longrightarrow> c = cell_value k"
  by (auto simp: interpret_char_as_cell_def split: if_splits)

lemma interpret_char_as_cell_Inl:
  "interpret_char_as_cell c = Inl e \<Longrightarrow> c \<notin> range cell_value \<and> e = UnknownCellCharacter c"
  by (auto simp: interpret_char_as_cell_def cell_UNIV split: if_splits)

lemma interpret_row_Inr:
  "interpret_row cs = Inr row \<Longrightarrow> set cs \<subseteq> range cell_value \<and> concat (map tile_str row) = cs"
proof (induction cs arbitrary: row)
  case Nil
  then show ?case by simp
next
  case (Cons c cs)
  from Cons.prems obtain k row' where k: "interpret_char_as_cell c = Inr k"
    and r: "interpret_row cs = Inr row'" and row: "row = Kind k # row'"
    by (auto split: sum.splits)
  from interpret_char_as_cell_Inr[OF k] Cons.IH[OF r] row show ?case
    by (simp add: tile_str_def)
qed

lemma interpret_row_Inl:
  "interpret_row cs = Inl e \<Longrightarrow> \<exists>c\<in>set cs. c \<notin> range cell_value \<and> e = UnknownCellCharacter c"
proof (induction cs)
  case Nil
  then show ?case by simp
next
  case (Cons c cs)
  then show ?case
    by (auto split: sum.splits dest: interpret_char_as_cell_Inl)
qed

text \<open>
  The four characters of \<^verbatim>\<open>Cell\<close> differ, so a character is the value of at most one
  cell; a row that \<open>interpret_row\<close> returns holds, slot by slot, the cell of that
  character.
\<close>

lemma inj_cell_value: "inj cell_value"
proof (rule injI)
  fix a b
  show "cell_value a = cell_value b \<Longrightarrow> a = b"
    by (cases a; cases b) simp_all
qed

lemma interpret_row_tiles:
  "interpret_row cs = Inr row \<Longrightarrow>
   list_all2 (\<lambda>tile c. \<exists>k. tile = Kind k \<and> cell_value k = c
                           \<and> (\<forall>k'. cell_value k' = c \<longrightarrow> k' = k)) row cs"
proof (induction cs arbitrary: row)
  case Nil
  then show ?case by simp
next
  case (Cons c cs)
  from Cons.prems obtain k row' where k: "interpret_char_as_cell c = Inr k"
    and r: "interpret_row cs = Inr row'" and row: "row = Kind k # row'"
    by (auto split: sum.splits)
  from interpret_char_as_cell_Inr[OF k] have c: "c = cell_value k" .
  have u: "\<forall>k'. cell_value k' = c \<longrightarrow> k' = k"
    using injD[OF inj_cell_value] c by auto
  from Cons.IH[OF r] have "list_all2 (\<lambda>tile c. \<exists>k. tile = Kind k \<and> cell_value k = c
                           \<and> (\<forall>k'. cell_value k' = c \<longrightarrow> k' = k)) row' cs" .
  moreover have "\<exists>k0. Kind k = Kind k0 \<and> cell_value k0 = c
                           \<and> (\<forall>k'. cell_value k' = c \<longrightarrow> k' = k0)"
    using c u by blast
  ultimately show ?case unfolding row by (rule list_all2_Cons[THEN iffD2, OF conjI, rotated])
qed

section \<open>The claims\<close>

text \<open>
  C1 (the minimum cost search returns the minimum cost over all routes): fails on the
  code. On \<open>detour_maze\<close>, with the default direction and costs, \<^verbatim>\<open>min_cost_to_end\<close>
  returns 4009; a route from the start state to the end position costs 4007, and no
  route costs less.
\<close>

theorem detour_min_cost_is_not_minimal:
  "find_start_position detour_maze = Position 1 6
   \<and> find_end_position detour_maze = Inr (Position 3 1)
   \<and> min_cost_to_end detour_maze EAST 1 1000 = Inr 4009
   \<and> (\<exists>cells. route detour_maze (Position 1 6, EAST) 1 1000 (Position 3 1, EAST) 4007 cells)
   \<and> \<not> (\<exists>d c cells. route detour_maze (Position 1 6, EAST) 1 1000 (Position 3 1, d) c cells
            \<and> c < 4007)"
proof -
  have "min_cost_to_end detour_maze EAST 1 1000 = Inr 4009"
    by (simp add: detour_maze_rows min_cost_simps)
  moreover have "find_start_position detour_maze = Position 1 6"
    by (simp add: detour_maze_rows find_start_position_def)
  moreover have "find_end_position detour_maze = Inr (Position 3 1)"
    by (simp add: detour_maze_rows find_end_position_def getitem_def)
  ultimately show ?thesis using detour_cheap_route detour_minimum by blast
qed

text \<open>
  C2 (the counted tiles are exactly the cells of the minimum-cost routes): fails on the
  code. On \<open>detour_maze\<close> the call counts 10 cells and marks them in the maze. The cell
  (1, 5) is not among them, and it lies on a route to the end position that costs 4007,
  which is the minimum cost.
\<close>

theorem detour_best_tiles:
  "(\<exists>maze'. count_best_path_tiles detour_maze EAST 1 1000 = Some (Inr (10, maze'))
      \<and> print_maze maze' = map (map of_char)
          [''#####'',
           ''#.OO#'',
           ''#.O##'',
           ''##OO#'',
           ''#..O#'',
           ''#.#O#'',
           ''#OOO#'',
           ''#####''])
   \<and> (\<exists>cells. route detour_maze (Position 1 6, EAST) 1 1000 (Position 3 1, EAST) 4007 cells
         \<and> Position 1 5 \<in> set cells)
   \<and> \<not> (\<exists>d c cells. route detour_maze (Position 1 6, EAST) 1 1000 (Position 3 1, d) c cells
            \<and> c < 4007)"
proof -
  have "\<exists>maze'. count_best_path_tiles detour_maze EAST 1 1000 = Some (Inr (10, maze'))
      \<and> print_maze maze' = map (map of_char)
          [''#####'',
           ''#.OO#'',
           ''#.O##'',
           ''##OO#'',
           ''#..O#'',
           ''#.#O#'',
           ''#OOO#'',
           ''#####'']"
    by (simp add: detour_maze_rows count_best_simps print_maze_def tile_str_def)
  moreover have "\<exists>cells. route detour_maze (Position 1 6, EAST) 1 1000 (Position 3 1, EAST) 4007 cells
         \<and> Position 1 5 \<in> set cells"
  proof (intro exI conjI)
    show "Position 1 5 \<in> set [Position 3 1, Position 2 1, Position 2 2, Position 2 3,
        Position 2 4, Position 1 4, Position 1 5, Position 1 6]" by simp
  qed (rule detour_cheap_route)
  ultimately show ?thesis using detour_minimum by blast
qed

text \<open>
  C3 (in both searches the record of finalized states is keyed by position and
  direction): fails on the code, which keeps a set of positions in one search and a
  dictionary keyed by position in the other. On \<open>detour_maze\<close> the entry for position
  (2, 3) facing north, of cost 3004, is the head of either queue after 27 iterations, and
  the next iteration drops it without expanding it: the position was visited before,
  facing west, at cost 2006.
\<close>

theorem detour_entry_dropped_for_other_direction:
  "(\<exists>s. min_cost_after 27 detour_maze (Position 3 1) 1 1000 (mc_initial (Position 1 6) EAST) = Inr s
      \<and> hd (mc_queue s) = (3004, 25, Position 2 3, NORTH)
      \<and> Position 2 3 \<in> mc_visited s
      \<and> min_cost_iteration detour_maze (Position 3 1) 1 1000 s
          = Inr (s\<lparr>mc_queue := tl (mc_queue s)\<rparr>))
   \<and> (\<exists>s. count_best_after 27 detour_maze (Position 3 1) 1 1000
             (bp_initial (Position 1 6) EAST (Position 3 1)) = Inr s
      \<and> node_key (hd (bp_queue s)) = (3004, 25)
      \<and> node_position (hd (bp_queue s)) = Position 2 3
      \<and> node_direction (hd (bp_queue s)) = NORTH
      \<and> bp_min_cost_to_position s (Position 2 3) = Some 2006
      \<and> count_best_iteration detour_maze (Position 3 1) 1 1000 (hd (bp_queue s))
            (s\<lparr>bp_queue := tl (bp_queue s)\<rparr>)
          = Inr (s\<lparr>bp_queue := tl (bp_queue s)\<rparr>))"
proof (rule conjI)
  show "\<exists>s. min_cost_after 27 detour_maze (Position 3 1) 1 1000 (mc_initial (Position 1 6) EAST) = Inr s
      \<and> hd (mc_queue s) = (3004, 25, Position 2 3, NORTH)
      \<and> Position 2 3 \<in> mc_visited s
      \<and> min_cost_iteration detour_maze (Position 3 1) 1 1000 s
          = Inr (s\<lparr>mc_queue := tl (mc_queue s)\<rparr>)"
    by (simp add: detour_maze_rows min_cost_simps min_cost_after_numeral)
next
  show "\<exists>s. count_best_after 27 detour_maze (Position 3 1) 1 1000
             (bp_initial (Position 1 6) EAST (Position 3 1)) = Inr s
      \<and> node_key (hd (bp_queue s)) = (3004, 25)
      \<and> node_position (hd (bp_queue s)) = Position 2 3
      \<and> node_direction (hd (bp_queue s)) = NORTH
      \<and> bp_min_cost_to_position s (Position 2 3) = Some 2006
      \<and> count_best_iteration detour_maze (Position 3 1) 1 1000 (hd (bp_queue s))
            (s\<lparr>bp_queue := tl (bp_queue s)\<rparr>)
          = Inr (s\<lparr>bp_queue := tl (bp_queue s)\<rparr>)"
    by (simp add: detour_maze_rows count_best_simps count_best_after_numeral)
qed

text \<open>
  C4 (both searches raise the no-path error when the end cannot be reached): holds for
  \<^verbatim>\<open>min_cost_to_end\<close> on a grid enclosed by walls whose end cell is not a wall, and not
  for \<^verbatim>\<open>count_best_path_tiles\<close>, which has no such error: when no route leads to the end
  position, the only result it can return is 0, with the maze left as it was, and it does
  return it when neither cost is negative and one of them is positive.
\<close>

theorem unreachable_end_outcomes:
  assumes enc: "enclosed maze" and e: "find_end_position maze = Inr e" and pass: "passable maze e"
    and unreachable: "\<not> (\<exists>d c cells. route maze (find_start_position maze, sd) m t (e, d) c cells)"
  shows "min_cost_to_end maze sd m t = Inl NoPathFound
       \<and> (count_best_path_tiles maze sd m t = None
            \<or> count_best_path_tiles maze sd m t = Some (Inr (0, maze)))
       \<and> (0 \<le> m \<and> 0 \<le> t \<and> 1 \<le> m + t
            \<longrightarrow> count_best_path_tiles maze sd m t = Some (Inr (0, maze)))"
proof -
  have "mc_inv maze (find_start_position maze, sd) m t (mc_initial (find_start_position maze) sd)"
    by (rule mc_inv_initial[OF enc])
  from min_cost_loop_inv[OF enc this, where e=e] pass unreachable
  have "min_cost_loop maze e m t (mc_initial (find_start_position maze) sd) = Inl NoPathFound"
    by (auto simp: arrives_def)
  with e have first: "min_cost_to_end maze sd m t = Inl NoPathFound"
    by (simp add: min_cost_to_end_def)
  from e enclosed_find_end[OF enc]
  have "e = Position (int (length (hd maze)) - 2) 1" by simp
  with unreachable have "\<not> (\<exists>d c cells. route maze (find_start_position maze, sd) m t
      (Position (int (length (hd maze)) - 2) 1, d) c cells \<and> c \<le> SENTINEL)" by auto
  from count_best_path_tiles_partial[OF enc this]
  have second: "count_best_path_tiles maze sd m t = None
      \<or> count_best_path_tiles maze sd m t = Some (Inr (0, maze))" .
  with count_best_path_tiles_returns[OF enc, of m t sd]
  have "0 \<le> m \<and> 0 \<le> t \<and> 1 \<le> m + t
      \<longrightarrow> count_best_path_tiles maze sd m t = Some (Inr (0, maze))"
    by auto
  with first second show ?thesis by blast
qed
text \<open>The theorem on \<open>sealed_maze\<close>, whose end lies behind a wall.\<close>

theorem unreachable_end_outcomes_witness:
  "enclosed sealed_maze
   \<and> find_start_position sealed_maze = Position 1 2
   \<and> find_end_position sealed_maze = Inr (Position 3 1)
   \<and> passable sealed_maze (Position 3 1)
   \<and> \<not> (\<exists>d c cells. route sealed_maze (Position 1 2, EAST) 1 1000 (Position 3 1, d) c cells)
   \<and> min_cost_to_end sealed_maze EAST 1 1000 = Inl NoPathFound
   \<and> count_best_path_tiles sealed_maze EAST 1 1000 = Some (Inr (0, sealed_maze))"
proof -
  have enc: "enclosed sealed_maze" by (simp add: sealed_maze_rows enclosed_def)
  have e: "find_end_position sealed_maze = Inr (Position 3 1)"
    by (simp add: sealed_maze_rows find_end_position_def getitem_def)
  have s: "find_start_position sealed_maze = Position 1 2"
    by (simp add: sealed_maze_rows find_start_position_def)
  have pass: "passable sealed_maze (Position 3 1)"
    by (simp add: sealed_maze_rows passable_def)
  note no_route = sealed_maze_unreachable[of EAST 1 1000]
  from unreachable_end_outcomes[OF enc e pass, of EAST 1 1000] no_route
  have "min_cost_to_end sealed_maze EAST 1 1000 = Inl NoPathFound
      \<and> count_best_path_tiles sealed_maze EAST 1 1000 = Some (Inr (0, sealed_maze))"
    by (simp add: s)
  with enc e s pass no_route show ?thesis by blast
qed
text \<open>
  On \<open>walled_off_maze\<close> no route leads to the end position, and
  \<^verbatim>\<open>count_best_path_tiles\<close> returns 0 where the claim has it raise the error.
\<close>

theorem walled_off_maze_count_is_zero:
  "find_start_position walled_off_maze = Position 1 1
   \<and> find_end_position walled_off_maze = Inr (Position 3 1)
   \<and> \<not> (\<exists>d c cells. route walled_off_maze (Position 1 1, EAST) 1 1000 (Position 3 1, d) c cells)
   \<and> min_cost_to_end walled_off_maze EAST 1 1000 = Inl NoPathFound
   \<and> count_best_path_tiles walled_off_maze EAST 1 1000 = Some (Inr (0, walled_off_maze))"
proof -
  have "\<not> (\<exists>d c cells. route walled_off_maze (Position 1 1, EAST) 1 1000 (Position 3 1, d) c cells)"
  proof
    assume "\<exists>d c cells. route walled_off_maze (Position 1 1, EAST) 1 1000 (Position 3 1, d) c cells"
    then obtain d c cells where
      r: "route walled_off_maze (Position 1 1, EAST) 1 1000 (Position 3 1, d) c cells" by blast
    have "fst (Position 3 1, d) \<in> {Position 1 1}"
    proof (rule route_closed[OF r])
      show "fst (Position 1 1, EAST) \<in> {Position 1 1}" by simp
    next
      fix p d'
      assume "p \<in> {Position 1 1}" "passable walled_off_maze (advance d' p)"
      then show "advance d' p \<in> {Position 1 1}"
        by (cases d') (auto simp: walled_off_maze_rows passable_def advance_def)
    qed
    then show False by simp
  qed
  moreover have "find_start_position walled_off_maze = Position 1 1"
    by (simp add: walled_off_maze_rows find_start_position_def)
  moreover have "find_end_position walled_off_maze = Inr (Position 3 1)"
    by (simp add: walled_off_maze_rows find_end_position_def getitem_def)
  moreover have "min_cost_to_end walled_off_maze EAST 1 1000 = Inl NoPathFound"
    by (simp add: walled_off_maze_rows min_cost_simps)
  moreover have "count_best_path_tiles walled_off_maze EAST 1 1000
      = Some (Inr (0, walled_off_maze))"
    by (simp add: walled_off_maze_rows count_best_simps)
  ultimately show ?thesis by blast
qed

text \<open>
  C5 (no search changes the maze): fails on the code for \<^verbatim>\<open>count_best_path_tiles\<close>. On
  \<open>single_cell_maze\<close> the call returns 1 and leaves the string \<^verbatim>\<open>"O"\<close> where the caller's
  maze held the start cell.
\<close>

theorem single_cell_maze_is_overwritten:
  "\<exists>maze'. count_best_path_tiles single_cell_maze EAST 1 1000 = Some (Inr (1, maze'))
     \<and> cell_at single_cell_maze (Position 1 1) = Inr (Kind START)
     \<and> cell_at maze' (Position 1 1) = Inr (Text [of_char CHR ''O''])"
  by (simp add: single_cell_maze_def parse_simps count_best_simps)

text \<open>
  C6 (finding Start or End returns the first cell of that kind in row-major order and
  fails when there is none): not what the code does. Neither function looks at a cell:
  the start is column 1 of the last row but one, the end is the last column but one of
  row 1, whatever the maze holds, and the only failure is the subscript \<^verbatim>\<open>maze[0]\<close> of a
  maze without rows.
\<close>

theorem find_positions_ignore_cells:
  "find_start_position maze = Position 1 (int (length maze) - 2)
   \<and> find_end_position maze =
       (case maze of [] \<Rightarrow> Inl IndexError | row # rows \<Rightarrow> Inr (Position (int (length row) - 2) 1))
   \<and> find_start_position (map (map f) maze) = find_start_position maze
   \<and> find_end_position (map (map f) maze) = find_end_position maze"
  by (cases maze) (simp_all add: find_start_position_def find_end_position_def getitem_def)

text \<open>
  On \<open>corner_maze\<close> the first Start and the first End in row-major order are elsewhere,
  and on \<open>blank_maze\<close>, which has no Start cell, a position is returned all the same.
\<close>

theorem find_positions_are_not_first_cells:
  "spec_find START corner_maze = Some (Position 0 0)
   \<and> find_start_position corner_maze = Position 1 1
   \<and> spec_find END corner_maze = Some (Position 2 0)
   \<and> find_end_position corner_maze = Inr (Position 1 1)
   \<and> spec_find START blank_maze = None
   \<and> find_start_position blank_maze = Position 1 1"
  by (simp add: corner_maze_def blank_maze_def parse_simps spec_find_def find_start_position_def
        find_end_position_def getitem_def)

text \<open>
  C7 (loading fails for rows of inconsistent lengths and for every character other than
  S, E, ., #): not what the code does. \<^verbatim>\<open>read_maze\<close> raises exactly when a line, once its
  leading and trailing whitespace is stripped, holds a character that is no cell
  character, and the error names such a character. Otherwise the maze it returns has one
  row for each line, in order; the row of a line has one slot for each character of the
  stripped line, in order, and the slot holds the one cell whose character that is. So
  the length of a row is the length of its stripped line, whatever the lengths of the
  other rows, and the maze prints back as the stripped lines.
\<close>

theorem read_maze_outcome:
  "(case read_maze lines of
      Inl e \<Rightarrow>
        \<exists>line\<in>set lines. \<exists>c\<in>set (strip line).
          c \<notin> range cell_value \<and> e = UnknownCellCharacter c
    | Inr maze \<Rightarrow>
        (\<forall>line\<in>set lines. set (strip line) \<subseteq> range cell_value)
        \<and> list_all2
             (\<lambda>row line.
                list_all2 (\<lambda>tile c. \<exists>k. tile = Kind k \<and> cell_value k = c
                                        \<and> (\<forall>k'. cell_value k' = c \<longrightarrow> k' = k))
                  row (strip line))
             maze lines
        \<and> map length maze = map (length \<circ> strip) lines
        \<and> print_maze maze = map strip lines)"
proof (induction lines)
  case Nil
  show ?case by (simp add: print_maze_def)
next
  case (Cons line lines)
  show ?case
  proof (cases "interpret_row (strip line)")
    case (Inl e)
    from interpret_row_Inl[OF Inl] Inl show ?thesis by auto
  next
    case (Inr row)
    note chars = interpret_row_Inr[OF Inr]
    note tiles = interpret_row_tiles[OF Inr]
    from tiles have len: "length row = length (strip line)" by (rule list_all2_lengthD)
    show ?thesis
    proof (cases "read_maze lines")
      case (Inl e)
      with Cons.IH obtain l c where "l \<in> set lines" "c \<in> set (strip l)"
        "c \<notin> range cell_value" "e = UnknownCellCharacter c" by auto
      then have "\<exists>l\<in>set (line # lines). \<exists>c\<in>set (strip l).
          c \<notin> range cell_value \<and> e = UnknownCellCharacter c" by auto
      with Inl Inr show ?thesis by simp
    next
      case r: (Inr rows)
      with Cons.IH have ih1: "\<forall>l\<in>set lines. set (strip l) \<subseteq> range cell_value"
        and ih2: "list_all2
             (\<lambda>row line.
                list_all2 (\<lambda>tile c. \<exists>k. tile = Kind k \<and> cell_value k = c
                                        \<and> (\<forall>k'. cell_value k' = c \<longrightarrow> k' = k))
                  row (strip line))
             rows lines"
        and ih3: "map length rows = map (length \<circ> strip) lines"
        and ih4: "print_maze rows = map strip lines" by simp_all
      have eq: "read_maze (line # lines) = Inr (row # rows)" using Inr r by simp
      from chars ih1 have c1: "\<forall>l\<in>set (line # lines). set (strip l) \<subseteq> range cell_value"
        by simp
      from tiles ih2 have c2: "list_all2
             (\<lambda>row line.
                list_all2 (\<lambda>tile c. \<exists>k. tile = Kind k \<and> cell_value k = c
                                        \<and> (\<forall>k'. cell_value k' = c \<longrightarrow> k' = k))
                  row (strip line))
             (row # rows) (line # lines)" by (rule list_all2_Cons[THEN iffD2, OF conjI])
      from len ih3 have c3: "map length (row # rows) = map (length \<circ> strip) (line # lines)"
        by simp
      from chars ih4 have c4: "print_maze (row # rows) = map strip (line # lines)"
        by (simp add: print_maze_def)
      show ?thesis unfolding eq sum.case using c1 c2 c3 c4 by (intro conjI)
    qed
  qed
qed

text \<open>
  The theorem on two lines of different lengths, each with its line feed (code point 10),
  the second one starting with a space (code point 32).
\<close>

theorem read_maze_outcome_witness:
  "read_maze [map of_char ''#S'' @ [10], 32 # map of_char ''.E#'' @ [10]]
     = Inr [[Kind WALL, Kind START], [Kind EMPTY, Kind END, Kind WALL]]
   \<and> list_all2
        (\<lambda>row line.
           list_all2 (\<lambda>tile c. \<exists>k. tile = Kind k \<and> cell_value k = c
                                   \<and> (\<forall>k'. cell_value k' = c \<longrightarrow> k' = k))
             row (strip line))
        [[Kind WALL, Kind START], [Kind EMPTY, Kind END, Kind WALL]]
        [map of_char ''#S'' @ [10], 32 # map of_char ''.E#'' @ [10]]
   \<and> map length [[Kind WALL, Kind START], [Kind EMPTY, Kind END, Kind WALL]] = [2, 3]"
proof -
  have rm: "read_maze [map of_char ''#S'' @ [10], 32 # map of_char ''.E#'' @ [10]]
     = Inr [[Kind WALL, Kind START], [Kind EMPTY, Kind END, Kind WALL]]"
    by (simp add: parse_simps)
  note inst = read_maze_outcome[of "[map of_char ''#S'' @ [10], 32 # map of_char ''.E#'' @ [10]]",
      unfolded rm sum.case]
  from inst have tiles: "list_all2
        (\<lambda>row line.
           list_all2 (\<lambda>tile c. \<exists>k. tile = Kind k \<and> cell_value k = c
                                   \<and> (\<forall>k'. cell_value k' = c \<longrightarrow> k' = k))
             row (strip line))
        [[Kind WALL, Kind START], [Kind EMPTY, Kind END, Kind WALL]]
        [map of_char ''#S'' @ [10], 32 # map of_char ''.E#'' @ [10]]"
    by (rule conjunct1[OF conjunct2])
  have len: "map length [[Kind WALL, Kind START], [Kind EMPTY, Kind END, Kind WALL]] = [2, 3]"
    by simp
  from rm tiles len show ?thesis by (intro conjI)
qed

text \<open>Rows of different lengths load, and so does a line that starts with a space.\<close>

theorem read_maze_accepts_ragged_rows:
  "read_maze (map (map of_char) [''##'', ''#'']) = Inr [[Kind WALL, Kind WALL], [Kind WALL]]
   \<and> read_maze (map (map of_char) ['' #.'']) = Inr [[Kind WALL, Kind EMPTY]]"
  by (simp add: parse_simps)

text \<open>
  C8 (no search pushes a position outside the grid, so every subscript is in range):
  holds on a grid enclosed by walls, for which every entry of either queue, after any
  number of iterations, passes \<^verbatim>\<open>is_within_bounds\<close>, and neither search raises
  \<^verbatim>\<open>IndexError\<close>. The searches themselves never call \<^verbatim>\<open>is_within_bounds\<close>.
\<close>

theorem enclosed_searches_stay_inside:
  assumes enc: "enclosed maze" and e: "find_end_position maze = Inr e"
  shows "(\<forall>s. min_cost_after k maze e m t (mc_initial (find_start_position maze) sd) = Inr s
            \<longrightarrow> (\<forall>entry\<in>set (mc_queue s). is_within_bounds maze (step_position entry) = Inr True))
       \<and> (\<exists>s. count_best_after k maze e m t (bp_initial (find_start_position maze) sd e) = Inr s
            \<and> (\<forall>n\<in>set (bp_queue s). is_within_bounds maze (node_position n) = Inr True))
       \<and> min_cost_to_end maze sd m t \<noteq> Inl IndexError
       \<and> count_best_path_tiles maze sd m t \<noteq> Some (Inl IndexError)"
proof (intro conjI allI impI)
  let ?start = "(find_start_position maze, sd)"
  fix s assume "min_cost_after k maze e m t (mc_initial (find_start_position maze) sd) = Inr s"
  from min_cost_after_inv[OF enc mc_inv_initial[OF enc] this]
  show "\<forall>entry\<in>set (mc_queue s). is_within_bounds maze (step_position entry) = Inr True"
    by (simp add: mc_inv_def enclosed_is_within_bounds[OF enc])
next
  have "bp_inv maze (find_start_position maze, sd) m t e
          (bp_initial (find_start_position maze) sd e)"
    by (rule bp_inv_initial[OF enc])
  from count_best_after_inv[OF enc this] obtain s where
    "count_best_after k maze e m t (bp_initial (find_start_position maze) sd e) = Inr s"
    "bp_inv maze (find_start_position maze, sd) m t e s" by blast
  then show "\<exists>s. count_best_after k maze e m t (bp_initial (find_start_position maze) sd e) = Inr s
            \<and> (\<forall>n\<in>set (bp_queue s). is_within_bounds maze (node_position n) = Inr True)"
    by (auto simp: bp_inv_def node_ok_def enclosed_is_within_bounds[OF enc])
next
  have "mc_inv maze (find_start_position maze, sd) m t (mc_initial (find_start_position maze) sd)"
    by (rule mc_inv_initial[OF enc])
  from min_cost_loop_inv[OF enc this, where e=e] e
  show "min_cost_to_end maze sd m t \<noteq> Inl IndexError"
    by (auto simp: min_cost_to_end_def)
next
  show "count_best_path_tiles maze sd m t \<noteq> Some (Inl IndexError)"
  proof
    assume a: "count_best_path_tiles maze sd m t = Some (Inl IndexError)"
    with e obtain r where r: "count_best_loop maze e m t (bp_initial (find_start_position maze) sd e) = Some r"
      by (auto simp: count_best_path_tiles_def split: option.splits)
    from count_best_loop_sound[OF r enc bp_inv_initial[OF enc]] obtain s' where "r = Inr s'" by blast
    with a e r show False by (simp add: count_best_path_tiles_def Let_def)
  qed
qed

text \<open>The theorem on \<open>boxed_maze\<close>, after two iterations of the minimum cost search.\<close>

theorem enclosed_searches_stay_inside_witness:
  "enclosed boxed_maze
   \<and> find_start_position boxed_maze = Position 1 2
   \<and> find_end_position boxed_maze = Inr (Position 2 1)
   \<and> (\<exists>s. min_cost_after 2 boxed_maze (Position 2 1) 1 1000 (mc_initial (Position 1 2) EAST) = Inr s
       \<and> map step_position (mc_queue s)
           = [Position 3 2, Position 1 1, Position 1 3, Position 2 1, Position 2 3]
       \<and> list_all (\<lambda>entry. is_within_bounds boxed_maze (step_position entry) = Inr True) (mc_queue s))
   \<and> min_cost_to_end boxed_maze EAST 1 1000 \<noteq> Inl IndexError
   \<and> count_best_path_tiles boxed_maze EAST 1 1000 \<noteq> Some (Inl IndexError)"
proof -
  have e: "find_end_position boxed_maze = Inr (Position 2 1)"
    by (simp add: boxed_maze_def parse_simps find_end_position_def getitem_def)
  have s: "find_start_position boxed_maze = Position 1 2"
    by (simp add: boxed_maze_def parse_simps find_start_position_def)
  have run: "\<exists>s. min_cost_after 2 boxed_maze (Position 2 1) 1 1000 (mc_initial (Position 1 2) EAST) = Inr s
       \<and> map step_position (mc_queue s)
           = [Position 3 2, Position 1 1, Position 1 3, Position 2 1, Position 2 3]"
    by (simp add: boxed_maze_def parse_simps min_cost_simps min_cost_after_numeral step_position_def)
  from enclosed_searches_stay_inside[OF enclosed_boxed_maze e, of 2 1 1000 EAST] run
  show ?thesis using enclosed_boxed_maze e unfolding s by (auto simp: list_all_iff)
qed

text \<open>
  On \<open>open_maze\<close>, which has no walls, the third iteration pushes the position (4, 2)
  east of the grid, and both searches end with \<^verbatim>\<open>IndexError\<close> when they pop it.
\<close>

theorem open_maze_pushes_outside:
  "(\<exists>s. min_cost_after 3 open_maze (Position 2 1) 1 1000 (mc_initial (Position 1 2) EAST) = Inr s
      \<and> hd (mc_queue s) = (3, 8, Position 4 2, EAST))
   \<and> is_within_bounds open_maze (Position 4 2) = Inr False
   \<and> min_cost_to_end open_maze EAST 1 1000 = Inl IndexError
   \<and> count_best_path_tiles open_maze EAST 1 1000 = Some (Inl IndexError)"
  by (simp add: open_maze_rows min_cost_simps min_cost_after_numeral is_within_bounds_def
        count_best_simps)

text \<open>
  C9 (the returned cost does not decrease when the turn cost grows): fails on the code.
  On \<open>zigzag_maze\<close> with move cost 1, the turn cost 6 gives 48 and the turn cost 7
  gives 46.
\<close>

theorem zigzag_cost_drops_with_turn_cost:
  "min_cost_to_end zigzag_maze EAST 1 6 = Inr 48 \<and> min_cost_to_end zigzag_maze EAST 1 7 = Inr 46"
  by (simp add: zigzag_maze_def parse_simps min_cost_simps)

text \<open>
  C10 (the end position is recorded with the sentinel 999999999, a popped entry that
  costs more than the cost recorded for the end is dropped, and so a maze whose routes to
  the end all cost more than the sentinel yields 0): holds on a grid enclosed by walls.
  The entry is dropped after its cell was read, so the subscript must succeed; 0 is then
  the only result the call can return, and it does return it when neither cost is
  negative and one of them is positive.
\<close>

theorem sentinel_prunes_costly_mazes:
  assumes enc: "enclosed maze" and e: "find_end_position maze = Inr e"
    and far: "\<forall>d c cells. route maze (find_start_position maze, sd) m t (e, d) c cells
                \<longrightarrow> SENTINEL < c"
  shows "bp_min_cost_to_position (bp_initial (find_start_position maze) sd e) e = Some 999999999
       \<and> (\<forall>n s v c. bp_min_cost_to_position s e = Some v \<and> v < node_cost n
              \<and> cell_at maze (node_position n) = Inr c
            \<longrightarrow> count_best_iteration maze e m t n s = Inr s)
       \<and> (count_best_path_tiles maze sd m t = None
            \<or> count_best_path_tiles maze sd m t = Some (Inr (0, maze)))
       \<and> (0 \<le> m \<and> 0 \<le> t \<and> 1 \<le> m + t
            \<longrightarrow> count_best_path_tiles maze sd m t = Some (Inr (0, maze)))"
proof -
  have seed: "bp_min_cost_to_position (bp_initial (find_start_position maze) sd e) e
      = Some 999999999"
    by (simp add: bp_initial_def SENTINEL_def)
  have prune: "\<forall>n s v c. bp_min_cost_to_position s e = Some v \<and> v < node_cost n
              \<and> cell_at maze (node_position n) = Inr c
            \<longrightarrow> count_best_iteration maze e m t n s = Inr s"
    by (auto simp: count_best_iteration_def Let_def)
  from e enclosed_find_end[OF enc]
  have "e = Position (int (length (hd maze)) - 2) 1" by simp
  with far have "\<not> (\<exists>d c cells. route maze (find_start_position maze, sd) m t
                    (Position (int (length (hd maze)) - 2) 1, d) c cells \<and> c \<le> SENTINEL)"
    by fastforce
  from count_best_path_tiles_partial[OF enc this]
  have result: "count_best_path_tiles maze sd m t = None
      \<or> count_best_path_tiles maze sd m t = Some (Inr (0, maze))" .
  with count_best_path_tiles_returns[OF enc, of m t sd]
  have "0 \<le> m \<and> 0 \<le> t \<and> 1 \<le> m + t
      \<longrightarrow> count_best_path_tiles maze sd m t = Some (Inr (0, maze))"
    by auto
  with seed prune result show ?thesis by blast
qed
text \<open>
  The theorem on \<open>boxed_maze\<close> with turn cost 1000000000: the end needs one turn, the
  route costs 1000000002, and the count is 0.
\<close>

theorem sentinel_prunes_costly_mazes_witness:
  "enclosed boxed_maze
   \<and> find_start_position boxed_maze = Position 1 2
   \<and> find_end_position boxed_maze = Inr (Position 2 1)
   \<and> (\<exists>cells. route boxed_maze (Position 1 2, EAST) 1 1000000000 (Position 2 1, NORTH)
          1000000002 cells)
   \<and> \<not> (\<exists>d c cells. route boxed_maze (Position 1 2, EAST) 1 1000000000 (Position 2 1, d) c cells
            \<and> c \<le> SENTINEL)
   \<and> count_best_path_tiles boxed_maze EAST 1 1000000000 = Some (Inr (0, boxed_maze))"
proof -
  have enc: "enclosed boxed_maze" by (simp add: boxed_maze_rows enclosed_def)
  have e: "find_end_position boxed_maze = Inr (Position 2 1)"
    by (simp add: boxed_maze_rows find_end_position_def getitem_def)
  have s: "find_start_position boxed_maze = Position 1 2"
    by (simp add: boxed_maze_rows find_start_position_def)
  have far: "\<forall>d c cells. route boxed_maze (Position 1 2, EAST) 1 1000000000
                 (Position 2 1, d) c cells \<longrightarrow> SENTINEL < c"
  proof (intro allI impI)
    fix d c cells
    assume r: "route boxed_maze (Position 1 2, EAST) 1 1000000000 (Position 2 1, d) c cells"
    show "SENTINEL < c"
    proof (rule ccontr)
      assume "\<not> SENTINEL < c"
      then have "c < 1000000000" by (simp add: SENTINEL_def)
      from route_east_row[OF _ _ r this] show False by simp
    qed
  qed
  then have none: "\<not> (\<exists>d c cells. route boxed_maze (Position 1 2, EAST) 1 1000000000
      (Position 2 1, d) c cells \<and> c \<le> SENTINEL)"
    by fastforce
  have "passable boxed_maze (Position 1 2)" by (simp add: boxed_maze_rows passable_def)
  then have "route boxed_maze (Position 1 2, EAST) 1 1000000000 (Position 1 2, EAST) 0
      [Position 1 2]"
    using route_start[of boxed_maze "(Position 1 2, EAST)"] by simp
  moreover have "walk boxed_maze 1 1000000000 ((Position 1 2, EAST), 0, [Position 1 2])
        [EAST, NORTH]
       = Some ((Position 2 1, NORTH), 1000000002, [Position 2 1, Position 2 2, Position 1 2])"
    by (simp add: boxed_maze_rows passable_def advance_def)
  ultimately have some: "route boxed_maze (Position 1 2, EAST) 1 1000000000 (Position 2 1, NORTH)
      1000000002 [Position 2 1, Position 2 2, Position 1 2]"
    by (rule walk_route)
  from sentinel_prunes_costly_mazes[OF enc e, of EAST 1 1000000000] far
  have "count_best_path_tiles boxed_maze EAST 1 1000000000 = Some (Inr (0, boxed_maze))"
    by (simp add: s)
  with enc e s some none show ?thesis by blast
qed
text \<open>
  On \<open>open_maze\<close> with the same costs every route to the end costs more than the
  sentinel, and the call ends with \<^verbatim>\<open>IndexError\<close> instead of returning 0.
\<close>

theorem open_maze_sentinel_index_error:
  "(\<exists>cells. route open_maze (Position 1 2, EAST) 1 1000000000 (Position 2 1, NORTH) 1000000002 cells)
   \<and> \<not> (\<exists>d c cells. route open_maze (Position 1 2, EAST) 1 1000000000 (Position 2 1, d) c cells
            \<and> c \<le> SENTINEL)
   \<and> find_start_position open_maze = Position 1 2
   \<and> find_end_position open_maze = Inr (Position 2 1)
   \<and> count_best_path_tiles open_maze EAST 1 1000000000 = Some (Inl IndexError)"
proof -
  have "passable open_maze (Position 1 2)" by (simp add: open_maze_rows passable_def)
  then have "route open_maze (Position 1 2, EAST) 1 1000000000 (Position 1 2, EAST) 0 [Position 1 2]"
    using route_start[of open_maze "(Position 1 2, EAST)"] by simp
  moreover have "walk open_maze 1 1000000000 ((Position 1 2, EAST), 0, [Position 1 2]) [EAST, NORTH]
       = Some ((Position 2 1, NORTH), 1000000002, [Position 2 1, Position 2 2, Position 1 2])"
    by (simp add: open_maze_rows passable_def advance_def)
  ultimately have "route open_maze (Position 1 2, EAST) 1 1000000000 (Position 2 1, NORTH)
      1000000002 [Position 2 1, Position 2 2, Position 1 2]"
    by (rule walk_route)
  moreover have "\<not> (\<exists>d c cells. route open_maze (Position 1 2, EAST) 1 1000000000 (Position 2 1, d) c cells
            \<and> c \<le> SENTINEL)"
  proof
    assume "\<exists>d c cells. route open_maze (Position 1 2, EAST) 1 1000000000 (Position 2 1, d) c cells
            \<and> c \<le> SENTINEL"
    then obtain d c cells where
      r: "route open_maze (Position 1 2, EAST) 1 1000000000 (Position 2 1, d) c cells"
      and "c < 1000000000" by (auto simp: SENTINEL_def)
    from route_east_row[OF _ _ this] show False by simp
  qed
  moreover have "find_start_position open_maze = Position 1 2"
    by (simp add: open_maze_rows find_start_position_def)
  moreover have "find_end_position open_maze = Inr (Position 2 1)"
    by (simp add: open_maze_rows find_end_position_def getitem_def)
  moreover have "count_best_path_tiles open_maze EAST 1 1000000000 = Some (Inl IndexError)"
    by (simp add: open_maze_rows count_best_simps)
  ultimately show ?thesis by blast
qed

end
